theory Spec2Isabelle
  imports Main "HOL-Library.Word" "HOL-Library.Monad_Syntax"
begin

unbundle bit_operations_syntax

section \<open>Machine types and constants of \<^verbatim>\<open>mem.cc\<close> (64-bit build)\<close>

text \<open>
  The model follows the \<^verbatim>\<open>__arch64\<close> branch of the source: \<^verbatim>\<open>size_t\<close> and pointers
  are 64-bit words, \<^verbatim>\<open>uint32\<close> is a 32-bit word, and a C \<^verbatim>\<open>int\<close> that only ever holds
  a bit index or \<open>-1\<close> is a HOL \<open>int\<close> (the bitmaps have at most 32 cells, so no
  \<^verbatim>\<open>int\<close> expression of the source can overflow on them).

  A result of type \<open>'a option\<close> is \<open>None\<close> exactly where the C++ would read or
  write a bitmap cell outside the bitmap (undefined behaviour in the source).
\<close>

type_synonym size_t = "64 word"
type_synonym uint32 = "32 word"
type_synonym ptr = "64 word"

definition B :: nat where
  "B = 6"

definition R :: uint32 where
  "R = push_bit B 1 - 1"

definition C :: size_t where
  "C = 1"

definition g_sb_bits :: nat where
  "g_sb_bits = 15"

definition g_lb_bits :: nat where
  "g_lb_bits = g_sb_bits + B"

definition g_hb_bits :: nat where
  "g_hb_bits = g_lb_bits + B"

definition g_array_size :: uint32 where
  "g_array_size = 32"

definition g_max_alloc_size :: size_t where
  "g_max_alloc_size = push_bit 17 1"

definition NULL :: ptr where
  "NULL = 0"

subsection \<open>Bit-scan builtins\<close>

text \<open>
  \<^verbatim>\<open>__builtin_clzll(x)\<close> counts the zero bits above the most significant one bit,
  \<^verbatim>\<open>__builtin_ffsll(x)\<close> is one plus the index of the least significant one bit, and
  0 for \<open>x = 0\<close>. Both are written as the scans they stand for.
\<close>

fun clz_scan :: "size_t \<Rightarrow> nat \<Rightarrow> nat" where
  "clz_scan x 0 = 0"
| "clz_scan x (Suc n) = (if bit x n then 0 else Suc (clz_scan x n))"

definition builtin_clzll :: "size_t \<Rightarrow> nat" where
  "builtin_clzll x = clz_scan x 64"

fun ffs_scan :: "size_t \<Rightarrow> nat \<Rightarrow> nat \<Rightarrow> nat" where
  "ffs_scan x i 0 = 0"
| "ffs_scan x i (Suc k) = (if bit x i then Suc i else ffs_scan x (Suc i) k)"

definition builtin_ffsll :: "size_t \<Rightarrow> nat" where
  "builtin_ffsll x = ffs_scan x 0 64"

text \<open>\<^verbatim>\<open>inline int _find_msb(size_t x) { return 63 - __builtin_clzll(x); }\<close>\<close>

definition find_msb :: "size_t \<Rightarrow> int" where
  "find_msb x = 63 - int (builtin_clzll x)"

text \<open>\<^verbatim>\<open>inline uint32 _find_lsb(size_t x) { return __builtin_ffsll(x) - 1; }\<close>\<close>

definition find_lsb :: "size_t \<Rightarrow> uint32" where
  "find_lsb x = word_of_nat (builtin_ffsll x) - 1"

section \<open>Bitset\<close>

text \<open>
  A \<^verbatim>\<open>Bitset\<close> is a pointer to an array of \<^verbatim>\<open>size_t\<close> cells; the model keeps the cells
  of the bitmap it points to as a list.
\<close>

type_synonym Bitset = "size_t list"

definition cell_idx :: "uint32 \<Rightarrow> nat" where
  "cell_idx i = unat (drop_bit B i)"

definition cell_mask :: "uint32 \<Rightarrow> size_t" where
  "cell_mask i = push_bit (unat (i AND R)) C"

definition Bitset_set :: "Bitset \<Rightarrow> uint32 \<Rightarrow> Bitset option" where
  "Bitset_set s i =
     (if cell_idx i < length s
      then Some (s[cell_idx i := s ! cell_idx i OR cell_mask i])
      else None)"

definition Bitset_unset :: "Bitset \<Rightarrow> uint32 \<Rightarrow> Bitset option" where
  "Bitset_unset s i =
     (if cell_idx i < length s
      then Some (s[cell_idx i := s ! cell_idx i AND NOT (cell_mask i)])
      else None)"

text \<open>
  \<^verbatim>\<open>do { x = _s[n]; if (x) return _find_msb(x) + (n << B); } while (--n >= 0); return -1;\<close>
\<close>

fun rfind_loop :: "Bitset \<Rightarrow> nat \<Rightarrow> int option" where
  "rfind_loop s 0 =
     (if 0 < length s
      then (if s ! 0 \<noteq> 0 then Some (find_msb (s ! 0) + int (push_bit B 0)) else Some (- 1))
      else None)"
| "rfind_loop s (Suc n) =
     (if Suc n < length s
      then (if s ! Suc n \<noteq> 0 then Some (find_msb (s ! Suc n) + int (push_bit B (Suc n)))
            else rfind_loop s n)
      else None)"

definition Bitset_rfind :: "Bitset \<Rightarrow> uint32 \<Rightarrow> int option" where
  "Bitset_rfind s i = rfind_loop s (cell_idx i)"

text \<open>\<^verbatim>\<open>atomic_or(&_s[i >> B], C << (i & R), mo_relaxed)\<close>, run without interference.\<close>

definition Bitset_atomic_set :: "Bitset \<Rightarrow> uint32 \<Rightarrow> Bitset option" where
  "Bitset_atomic_set s i =
     (if cell_idx i < length s
      then Some (s[cell_idx i := s ! cell_idx i OR cell_mask i])
      else None)"

text \<open>Bit \<open>j\<close> of the whole bitmap: bit \<open>j mod 64\<close> of cell \<open>j div 64\<close>.\<close>

definition bit_at :: "Bitset \<Rightarrow> nat \<Rightarrow> bool" where
  "bit_at s j = (j div 64 < length s \<and> bit (s ! (j div 64)) (j mod 64))"

text \<open>The last bit of the cell that holds bit \<open>i\<close>: \<open>(i/W + 1) * W - 1\<close>.\<close>

definition rfind_bound :: "uint32 \<Rightarrow> nat" where
  "rfind_bound i = (unat i div 64 + 1) * 64 - 1"

section \<open>SmallAlloc and LargeAlloc\<close>

text \<open>
  \<^verbatim>\<open>SmallAlloc\<close> and \<^verbatim>\<open>LargeAlloc\<close> have the same fields and, line for line, the same
  member functions; they differ in the shift that turns a slot index into a byte offset
  (4 and 12) and in \<^verbatim>\<open>MAX_bIT\<close>. One record and one definition per member function,
  indexed by the kind of allocator, model both classes: \<open>Alloc_alloc Small\<close> is
  \<^verbatim>\<open>SmallAlloc::alloc\<close>, \<open>Alloc_alloc Large\<close> is \<^verbatim>\<open>LargeAlloc::alloc\<close>, and so on.
  The list links \<^verbatim>\<open>_next\<close> and \<^verbatim>\<open>_prev\<close> live in the store of links further down.
\<close>

datatype kind = Small | Large

record Alloc =
  a_parent :: ptr
  a_ta :: ptr
  a_p :: ptr
  a_bs :: Bitset
  a_xbs :: Bitset
  a_cur_bit :: uint32

fun unit_shift :: "kind \<Rightarrow> nat" where
  "unit_shift Small = 4"
| "unit_shift Large = 12"

fun BS_BITS :: "kind \<Rightarrow> uint32" where
  "BS_BITS Small = push_bit (g_sb_bits - 4) 1"
| "BS_BITS Large = push_bit (g_lb_bits - 12) 1"

definition SA_SIZE :: uint32 where
  "SA_SIZE = 64"

definition LA_SIZE :: uint32 where
  "LA_SIZE = 64"

fun MAX_bIT :: "kind \<Rightarrow> uint32" where
  "MAX_bIT Small = BS_BITS Small - drop_bit 4 (SA_SIZE + drop_bit 2 (BS_BITS Small))"
| "MAX_bIT Large = BS_BITS Large - 1"

text \<open>
  The slot index of a pointer, \<^verbatim>\<open>((char*)p - _p) >> 4\<close> (or \<^verbatim>\<open>>> 12\<close>): a signed 64-bit
  difference, shifted arithmetically and cut to 32 bits by the cast to \<^verbatim>\<open>int\<close> or
  \<^verbatim>\<open>uint32\<close>.
\<close>

definition slot_index :: "kind \<Rightarrow> Alloc \<Rightarrow> ptr \<Rightarrow> uint32" where
  "slot_index k a p = ucast (signed_drop_bit (unit_shift k) (p - a_p a))"

text \<open>
  Modelled from the spec: \<^verbatim>\<open>god::fetch_add(&_cur_bit, n)\<close> is declared in \<^verbatim>\<open>co/god.h\<close>,
  which is not among the sources; following ``return \<open>base + cur_bit\<cdot>slot_size\<close>, and
  advance \<open>cur_bit\<close> by \<open>n\<close>'' it returns the old value of the cursor and adds \<open>n\<close> to it.
  The shift of the old cursor is a \<^verbatim>\<open>uint32\<close> shift; the sum with \<^verbatim>\<open>_p\<close> is pointer
  arithmetic.
\<close>

definition Alloc_alloc :: "kind \<Rightarrow> uint32 \<Rightarrow> Alloc \<Rightarrow> (Alloc \<times> ptr) option" where
  "Alloc_alloc k n a =
     (if a_cur_bit a + n \<le> MAX_bIT k
      then do {
        bs' \<leftarrow> Bitset_set (a_bs a) (a_cur_bit a);
        Some (a\<lparr>a_bs := bs', a_cur_bit := a_cur_bit a + n\<rparr>,
              a_p a + ucast (push_bit (unit_shift k) (a_cur_bit a)))
      }
      else Some (a, NULL))"

definition Alloc_free :: "kind \<Rightarrow> ptr \<Rightarrow> Alloc \<Rightarrow> (Alloc \<times> bool) option" where
  "Alloc_free k p a =
     (let i = slot_index k a p in do {
        bs' \<leftarrow> Bitset_unset (a_bs a) i;
        r \<leftarrow> Bitset_rfind bs' (a_cur_bit a);
        (if r < sint i
         then let c = (if r \<ge> 0 then i else 0)
              in Some (a\<lparr>a_bs := bs', a_cur_bit := c\<rparr>, c = 0)
         else Some (a\<lparr>a_bs := bs'\<rparr>, False))
      })"

definition Alloc_xfree :: "kind \<Rightarrow> ptr \<Rightarrow> Alloc \<Rightarrow> Alloc option" where
  "Alloc_xfree k p a =
     (let i = slot_index k a p in do {
        xbs' \<leftarrow> Bitset_atomic_set (a_xbs a) i;
        Some (a\<lparr>a_xbs := xbs'\<rparr>)
      })"

definition Alloc_realloc :: "kind \<Rightarrow> ptr \<Rightarrow> uint32 \<Rightarrow> uint32 \<Rightarrow> Alloc \<Rightarrow> Alloc \<times> ptr" where
  "Alloc_realloc k p o' n a =
     (let i = slot_index k a p in
      if a_cur_bit a = i + o' \<and> i + n \<le> MAX_bIT k
      then (a\<lparr>a_cur_bit := i + n\<rparr>, p)
      else (a, NULL))"

text \<open>
  The body of the loop of \<^verbatim>\<open>try_hard_alloc\<close> for cell \<open>i\<close>; the flag of the result says
  that the loop was left by \<^verbatim>\<open>break\<close>. The atomic load of \<^verbatim>\<open>q[i]\<close> and the atomic and
  with \<^verbatim>\<open>~x\<close> run without interference from other threads.
\<close>

definition try_hard_body :: "nat \<Rightarrow> Alloc \<Rightarrow> (Alloc \<times> bool) option" where
  "try_hard_body i a =
     (if i < length (a_xbs a)
      then let x = a_xbs a ! i in
        if x \<noteq> 0
        then (if i < length (a_bs a)
          then let q' = (a_xbs a)[i := a_xbs a ! i AND NOT x];
                   p' = (a_bs a)[i := a_bs a ! i AND NOT x];
                   lsb = sint (find_lsb x + word_of_nat (push_bit B i));
                   a' = a\<lparr>a_bs := p', a_xbs := q'\<rparr>
               in do {
                 r \<leftarrow> Bitset_rfind p' (a_cur_bit a);
                 (if r \<ge> lsb then Some (a', True)
                  else let c = (if r \<ge> 0 then word_of_int lsb else 0)
                       in Some (a'\<lparr>a_cur_bit := c\<rparr>, c = 0))
               }
          else None)
        else Some (a, False)
      else None)"

text \<open>\<^verbatim>\<open>for (int i = M; i >= 0; --i) { ... }\<close>\<close>

fun try_hard_loop :: "nat \<Rightarrow> Alloc \<Rightarrow> Alloc option" where
  "try_hard_loop 0 a = do { (a', stop) \<leftarrow> try_hard_body 0 a; Some a' }"
| "try_hard_loop (Suc i) a = do {
     (a', stop) \<leftarrow> try_hard_body (Suc i) a;
     if stop then Some a' else try_hard_loop i a'
   }"

definition Alloc_try_hard_alloc :: "kind \<Rightarrow> uint32 \<Rightarrow> Alloc \<Rightarrow> (Alloc \<times> ptr) option" where
  "Alloc_try_hard_alloc k n a = do {
     a1 \<leftarrow> try_hard_loop (unat (drop_bit B (a_cur_bit a))) a;
     (if a_cur_bit a1 + n \<le> MAX_bIT k
      then do {
        bs' \<leftarrow> Bitset_set (a_bs a1) (a_cur_bit a1);
        Some (a1\<lparr>a_bs := bs', a_cur_bit := a_cur_bit a1 + n\<rparr>,
              a_p a1 + ucast (push_bit (unit_shift k) (a_cur_bit a1)))
      }
      else Some (a1, NULL))
   }"

text \<open>
  The constructors set the header fields; the two bitmaps are the memory behind the
  header, which the constructor does not touch (\<open>bs0\<close> and \<open>xbs0\<close> are what is there).
\<close>

definition SmallAlloc_new :: "ptr \<Rightarrow> ptr \<Rightarrow> ptr \<Rightarrow> Bitset \<Rightarrow> Bitset \<Rightarrow> Alloc" where
  "SmallAlloc_new this parent g_thread_alloc bs0 xbs0 =
     \<lparr>a_parent = parent, a_ta = g_thread_alloc,
      a_p = this + ucast (SA_SIZE + drop_bit 2 (BS_BITS Small)),
      a_bs = bs0, a_xbs = xbs0, a_cur_bit = 0\<rparr>"

definition LargeAlloc_new :: "ptr \<Rightarrow> ptr \<Rightarrow> ptr \<Rightarrow> Bitset \<Rightarrow> Bitset \<Rightarrow> Alloc" where
  "LargeAlloc_new this parent g_thread_alloc bs0 xbs0 =
     \<lparr>a_parent = parent, a_ta = g_thread_alloc,
      a_p = this + 4096,
      a_bs = bs0, a_xbs = xbs0, a_cur_bit = 0\<rparr>"

text \<open>The number of cells of each of the two bitmaps: \<^verbatim>\<open>BS_BITS\<close> bits.\<close>

definition n_cells :: "kind \<Rightarrow> nat" where
  "n_cells k = unat (drop_bit B (BS_BITS k))"

subsection \<open>Well-formed allocators and the pointers they own\<close>

text \<open>
  The shape every constructed allocator has: both bitmaps have their \<^verbatim>\<open>BS_BITS\<close> bits and
  the cursor is at most \<^verbatim>\<open>MAX_bIT\<close>.
\<close>

definition Alloc_shape :: "kind \<Rightarrow> Alloc \<Rightarrow> bool" where
  "Alloc_shape k a \<longleftrightarrow>
     length (a_bs a) = n_cells k \<and> length (a_xbs a) = n_cells k \<and> a_cur_bit a \<le> MAX_bIT k"

text \<open>
  The cursor invariant: every set bit of \<open>bs\<close> is below the cursor, every bit of \<open>xbs\<close>
  (an object a foreign thread has freed) is still set in \<open>bs\<close>, and the cursor is 0 when
  \<open>bs\<close> is empty.
\<close>

definition Alloc_inv :: "kind \<Rightarrow> Alloc \<Rightarrow> bool" where
  "Alloc_inv k a \<longleftrightarrow>
     Alloc_shape k a \<and>
     (\<forall>j. bit_at (a_bs a) j \<longrightarrow> j < unat (a_cur_bit a)) \<and>
     (\<forall>j. bit_at (a_xbs a) j \<longrightarrow> bit_at (a_bs a) j) \<and>
     ((\<forall>j. \<not> bit_at (a_bs a) j) \<longrightarrow> a_cur_bit a = 0)"

text \<open>
  A pointer into the payload of the allocator, and the slot it lies in:
  \<open>(p - base) / slot_size\<close>.
\<close>

definition slot_size :: "kind \<Rightarrow> nat" where
  "slot_size k = 2 ^ unit_shift k"

definition inside :: "kind \<Rightarrow> Alloc \<Rightarrow> ptr \<Rightarrow> bool" where
  "inside k a p \<longleftrightarrow> unat (p - a_p a) < unat (MAX_bIT k) * slot_size k"

definition slot_of :: "kind \<Rightarrow> Alloc \<Rightarrow> ptr \<Rightarrow> nat" where
  "slot_of k a p = unat (p - a_p a) div slot_size k"

text \<open>An object of the allocator that is allocated and has not been freed by any thread.\<close>

definition live :: "kind \<Rightarrow> Alloc \<Rightarrow> ptr \<Rightarrow> bool" where
  "live k a p \<longleftrightarrow>
     inside k a p \<and> bit_at (a_bs a) (slot_of k a p) \<and> \<not> bit_at (a_xbs a) (slot_of k a p)"

text \<open>
  The payload of an allocator is real memory: its base is not the null pointer and the
  slots do not wrap around the address space.
\<close>

definition region_ok :: "kind \<Rightarrow> Alloc \<Rightarrow> bool" where
  "region_ok k a \<longleftrightarrow>
     a_p a \<noteq> NULL \<and> unat (a_p a) + unat (MAX_bIT k) * slot_size k < 2 ^ 64"

subsection \<open>Sequences of calls\<close>

text \<open>Successive calls of \<^verbatim>\<open>alloc\<close> on one allocator, with the pointers they return.\<close>

fun alloc_seq :: "kind \<Rightarrow> uint32 list \<Rightarrow> Alloc \<Rightarrow> (Alloc \<times> ptr list) option" where
  "alloc_seq k [] a = Some (a, [])"
| "alloc_seq k (u # us) a = do {
     (a1, p) \<leftarrow> Alloc_alloc k u a;
     (a2, ps) \<leftarrow> alloc_seq k us a1;
     Some (a2, p # ps)
   }"

text \<open>
  The calls a thread makes on one allocator, and the states they lead to from a freshly
  constructed one. A call is legal when it keeps the contract of the callers in
  \<^verbatim>\<open>ThreadAlloc\<close>: at least one unit and at most \<^verbatim>\<open>MAX_bIT\<close> units are requested, only
  live objects are freed, by their owner (\<open>Free\<close>) or by another thread (\<open>XFree\<close>), and
  \<^verbatim>\<open>realloc\<close> grows an object of at least one unit.
\<close>

datatype op = Alloc uint32 | TryHardAlloc uint32 | Free ptr | XFree ptr | Realloc ptr uint32 uint32

fun step :: "kind \<Rightarrow> op \<Rightarrow> Alloc \<Rightarrow> Alloc option" where
  "step k (Alloc n) a = map_option fst (Alloc_alloc k n a)"
| "step k (TryHardAlloc n) a = map_option fst (Alloc_try_hard_alloc k n a)"
| "step k (Free p) a = map_option fst (Alloc_free k p a)"
| "step k (XFree p) a = Alloc_xfree k p a"
| "step k (Realloc p o' n) a = Some (fst (Alloc_realloc k p o' n a))"

fun legal :: "kind \<Rightarrow> Alloc \<Rightarrow> op \<Rightarrow> bool" where
  "legal k a (Alloc n) = (0 < n \<and> n \<le> MAX_bIT k)"
| "legal k a (TryHardAlloc n) = (0 < n \<and> n \<le> MAX_bIT k)"
| "legal k a (Free p) = live k a p"
| "legal k a (XFree p) = live k a p"
| "legal k a (Realloc p o' n) = (live k a p \<and> 0 < o' \<and> o' \<le> n \<and> n \<le> MAX_bIT k)"

definition fresh :: "kind \<Rightarrow> Alloc \<Rightarrow> bool" where
  "fresh k a \<longleftrightarrow>
     a_bs a = replicate (n_cells k) 0 \<and> a_xbs a = replicate (n_cells k) 0 \<and> a_cur_bit a = 0"

inductive reachable :: "kind \<Rightarrow> Alloc \<Rightarrow> bool" for k where
  reachable_fresh: "fresh k a \<Longrightarrow> reachable k a"
| reachable_step: "reachable k a \<Longrightarrow> legal k a x \<Longrightarrow> step k x a = Some a' \<Longrightarrow> reachable k a'"

text \<open>
  The cursor invariant in the words of the specification: the cursor is one past the
  highest set bit of \<open>bs\<close>, and 0 when \<open>bs\<close> is empty.
\<close>

definition one_past_highest :: "Alloc \<Rightarrow> bool" where
  "one_past_highest a \<longleftrightarrow>
     (if \<exists>j. bit_at (a_bs a) j
      then unat (a_cur_bit a) = Suc (Max {j. bit_at (a_bs a) j})
      else a_cur_bit a = 0)"

subsection \<open>The scan of \<^verbatim>\<open>try_hard_alloc\<close> as the specification words it\<close>

text \<open>
  A second description of the allocator, following the sentences of the specification:
  the two bitmaps are sets of slot indices and the cursor is a number. \<open>spec_rfind\<close> is
  ``the highest set bit index \<open>\<le> (i/W+1)*W - 1\<close>, or \<open>-1\<close> if none''; \<open>spec_drain_cell\<close>
  is one step of ``for each cell index \<open>i\<close> from \<open>cur_bit/W\<close> down to 0'', its flag
  saying ``stop''.
\<close>

record Spec_alloc =
  s_bs :: "nat set"
  s_xbs :: "nat set"
  s_cur :: nat

definition spec_rfind :: "nat set \<Rightarrow> nat \<Rightarrow> int" where
  "spec_rfind S i =
     (if \<exists>j\<in>S. j \<le> (i div 64 + 1) * 64 - 1
      then int (Max {j \<in> S. j \<le> (i div 64 + 1) * 64 - 1})
      else - 1)"

definition spec_drain_cell :: "nat \<Rightarrow> Spec_alloc \<Rightarrow> Spec_alloc \<times> bool" where
  "spec_drain_cell i s =
     (let x = {j \<in> s_xbs s. j div 64 = i} in
      if x = {} then (s, False)
      else
        let s1 = s\<lparr>s_bs := s_bs s - x, s_xbs := s_xbs s - x\<rparr>;
            lsb = Min x;
            r = spec_rfind (s_bs s1) (s_cur s)
        in if r \<ge> int lsb then (s1, True)
           else let c = (if r \<ge> 0 then lsb else 0) in (s1\<lparr>s_cur := c\<rparr>, c = 0))"

fun spec_drain :: "nat \<Rightarrow> Spec_alloc \<Rightarrow> Spec_alloc" where
  "spec_drain 0 s = fst (spec_drain_cell 0 s)"
| "spec_drain (Suc i) s =
     (case spec_drain_cell (Suc i) s of (s', stop) \<Rightarrow> if stop then s' else spec_drain i s')"

definition spec_scan :: "Spec_alloc \<Rightarrow> Spec_alloc" where
  "spec_scan s = spec_drain (s_cur s div 64) s"

text \<open>What a state of the model stands for in this description.\<close>

definition bits_of :: "Bitset \<Rightarrow> nat set" where
  "bits_of s = {j. j < 64 * length s \<and> bit_at s j}"

text \<open>The set bits of cell \<open>i\<close> of a bitmap.\<close>

definition cell_bits :: "Bitset \<Rightarrow> nat \<Rightarrow> nat set" where
  "cell_bits s i = {j \<in> bits_of s. j div 64 = i}"

definition abs_of :: "Alloc \<Rightarrow> Spec_alloc" where
  "abs_of a = \<lparr>s_bs = bits_of (a_bs a), s_xbs = bits_of (a_xbs a), s_cur = unat (a_cur_bit a)\<rparr>"

text \<open>The cursor invariant, in this description.\<close>

definition spec_inv :: "Spec_alloc \<Rightarrow> bool" where
  "spec_inv s \<longleftrightarrow>
     finite (s_bs s) \<and> (\<forall>j. j \<in> s_bs s \<longrightarrow> j < s_cur s) \<and> s_xbs s \<subseteq> s_bs s \<and>
     (s_bs s = {} \<longrightarrow> s_cur s = 0)"

subsection \<open>Example allocators\<close>

text \<open>
  A fresh \<^verbatim>\<open>SmallAlloc\<close> at address \<open>0x8000\<close> and a fresh \<^verbatim>\<open>LargeAlloc\<close> at \<open>0x200000\<close>,
  each also after three allocations of one unit; \<open>la3x\<close> is \<open>la3\<close> after another thread
  has freed its second and third object.
\<close>

definition sa0 :: Alloc where
  "sa0 = SmallAlloc_new 32768 0 1 (replicate 32 0) (replicate 32 0)"

definition sa3 :: Alloc where
  "sa3 = \<lparr>a_parent = 0, a_ta = 1, a_p = 33344, a_bs = 7 # replicate 31 0,
           a_xbs = replicate 32 0, a_cur_bit = 3\<rparr>"

definition la0 :: Alloc where
  "la0 = LargeAlloc_new 2097152 0 1 (replicate 8 0) (replicate 8 0)"

definition la3 :: Alloc where
  "la3 = \<lparr>a_parent = 0, a_ta = 1, a_p = 2101248, a_bs = 7 # replicate 7 0,
           a_xbs = replicate 8 0, a_cur_bit = 3\<rparr>"

definition la3x :: Alloc where
  "la3x = \<lparr>a_parent = 0, a_ta = 1, a_p = 2101248, a_bs = 7 # replicate 7 0,
           a_xbs = 6 # replicate 7 0, a_cur_bit = 3\<rparr>"

section \<open>HugeBlock and LargeBlock\<close>

text \<open>
  The two block headers, without their list links (these are in the store of links).
  In \<^verbatim>\<open>free\<close> the shift \<^verbatim>\<open>C << i\<close> is undefined in C++ for \<open>i \<ge> 64\<close>, where \<open>push_bit\<close>
  gives 0; a pointer to one of the 63 units of a block has \<open>i < 63\<close>.
\<close>

record HugeBlock =
  hb_p :: ptr
  hb_bits :: size_t

record LargeBlock =
  lb_parent :: ptr
  lb_p :: ptr
  lb_bits :: size_t

definition HugeBlock_new :: "ptr \<Rightarrow> HugeBlock" where
  "HugeBlock_new p = \<lparr>hb_p = p, hb_bits = 0\<rparr>"

definition LargeBlock_new :: "ptr \<Rightarrow> ptr \<Rightarrow> LargeBlock" where
  "LargeBlock_new this parent =
     \<lparr>lb_parent = parent, lb_p = this + push_bit g_sb_bits 1, lb_bits = 0\<rparr>"

definition HugeBlock_alloc :: "HugeBlock \<Rightarrow> HugeBlock \<times> ptr" where
  "HugeBlock_alloc hb =
     (let i = find_lsb (NOT (hb_bits hb)) in
      if i < R
      then (hb\<lparr>hb_bits := hb_bits hb OR push_bit (unat i) C\<rparr>,
            hb_p hb + push_bit g_lb_bits (ucast i))
      else (hb, NULL))"

definition HugeBlock_free :: "HugeBlock \<Rightarrow> ptr \<Rightarrow> HugeBlock \<times> bool" where
  "HugeBlock_free hb p =
     (let i = (ucast (signed_drop_bit g_lb_bits (p - hb_p hb)) :: uint32);
          bits' = hb_bits hb AND NOT (push_bit (unat i) C)
      in (hb\<lparr>hb_bits := bits'\<rparr>, bits' = 0))"

definition LargeBlock_alloc :: "LargeBlock \<Rightarrow> LargeBlock \<times> ptr" where
  "LargeBlock_alloc lb =
     (let i = find_lsb (NOT (lb_bits lb)) in
      if i < R
      then (lb\<lparr>lb_bits := lb_bits lb OR push_bit (unat i) C\<rparr>,
            lb_p lb + push_bit g_sb_bits (ucast i))
      else (lb, NULL))"

definition LargeBlock_free :: "LargeBlock \<Rightarrow> ptr \<Rightarrow> LargeBlock \<times> bool" where
  "LargeBlock_free lb p =
     (let i = (ucast (signed_drop_bit g_sb_bits (p - lb_p lb)) :: uint32);
          bits' = lb_bits lb AND NOT (push_bit (unat i) C)
      in (lb\<lparr>lb_bits := bits'\<rparr>, bits' = 0))"

text \<open>The lowest clear bit of an occupancy bitmap.\<close>

definition lowest_clear :: "size_t \<Rightarrow> nat" where
  "lowest_clear b = (LEAST j. \<not> bit b j)"

section \<open>The store\<close>

text \<open>
  The objects of the allocator live in memory at their addresses. The model keeps one
  store per class, from addresses to the fields of the object there, and a store of
  list links: every header starts with \<^verbatim>\<open>_next\<close> and \<^verbatim>\<open>_prev\<close>, which the list
  primitives reach by casting the header to \<^verbatim>\<open>DoubleLink*\<close>. The calls into the
  virtual-memory layer, the system allocator and the shard mutexes are recorded in a
  trace, in program order; what \<^verbatim>\<open>_vm_reserve\<close> and \<^verbatim>\<open>::malloc\<close> will return is given by
  two lists of coming results (nil when a list is exhausted). A reservation that fails
  returns nil from \<^verbatim>\<open>VirtualAlloc\<close> and \<^verbatim>\<open>MAP_FAILED\<close>, the address of all ones, from
  \<^verbatim>\<open>::mmap\<close>. A mutex that is already held cannot be taken: the call does not return,
  which is the value \<open>None\<close>. \<open>None\<close> is also the result of a list primitive that
  dereferences a null pointer.
  The \<^verbatim>\<open>StaticAllocator\<close> member of \<^verbatim>\<open>ThreadAlloc\<close> takes no part in \<^verbatim>\<open>alloc\<close>, \<^verbatim>\<open>free\<close> and
  \<^verbatim>\<open>realloc\<close> and is left out.
\<close>

record DoubleLink =
  dl_next :: ptr
  dl_prev :: ptr

datatype event =
    VmReserve nat ptr
  | VmCommit ptr nat
  | VmDecommit ptr nat
  | VmFree ptr nat
  | Lock nat
  | Unlock nat
  | SysMalloc size_t ptr
  | SysFree ptr

record ThreadAlloc =
  ta_lb :: ptr
  ta_la :: ptr
  ta_sa :: ptr
  ta_id :: uint32

record State =
  links :: "ptr \<Rightarrow> DoubleLink"
  hbs :: "ptr \<Rightarrow> HugeBlock"
  lbs :: "ptr \<Rightarrow> LargeBlock"
  las :: "ptr \<Rightarrow> Alloc"
  sas :: "ptr \<Rightarrow> Alloc"
  tas :: "ptr \<Rightarrow> ThreadAlloc"
  ga_hb :: "nat \<Rightarrow> ptr"
  ga_mtx :: "nat \<Rightarrow> bool"
  trace :: "event list"
  vm_fresh :: "ptr list"
  sys_fresh :: "ptr list"

definition log_event :: "event \<Rightarrow> State \<Rightarrow> State" where
  "log_event e st = st\<lparr>trace := trace st @ [e]\<rparr>"

definition vm_reserve :: "nat \<Rightarrow> State \<Rightarrow> ptr \<times> State" where
  "vm_reserve n st =
     (case vm_fresh st of
        [] \<Rightarrow> (NULL, log_event (VmReserve n NULL) st)
      | x # xs \<Rightarrow> (x, log_event (VmReserve n x) (st\<lparr>vm_fresh := xs\<rparr>)))"

definition vm_commit :: "ptr \<Rightarrow> nat \<Rightarrow> State \<Rightarrow> State" where
  "vm_commit p n st = log_event (VmCommit p n) st"

definition vm_decommit :: "ptr \<Rightarrow> nat \<Rightarrow> State \<Rightarrow> State" where
  "vm_decommit p n st = log_event (VmDecommit p n) st"

definition vm_free :: "ptr \<Rightarrow> nat \<Rightarrow> State \<Rightarrow> State" where
  "vm_free p n st = log_event (VmFree p n) st"

definition sys_malloc :: "size_t \<Rightarrow> State \<Rightarrow> ptr \<times> State" where
  "sys_malloc n st =
     (case sys_fresh st of
        [] \<Rightarrow> (NULL, log_event (SysMalloc n NULL) st)
      | x # xs \<Rightarrow> (x, log_event (SysMalloc n x) (st\<lparr>sys_fresh := xs\<rparr>)))"

definition sys_free :: "ptr \<Rightarrow> State \<Rightarrow> State" where
  "sys_free p st = log_event (SysFree p) st"

definition mtx_lock :: "nat \<Rightarrow> State \<Rightarrow> State option" where
  "mtx_lock k st =
     (if ga_mtx st k then None
      else Some (log_event (Lock k) (st\<lparr>ga_mtx := (ga_mtx st)(k := True)\<rparr>)))"

definition mtx_unlock :: "nat \<Rightarrow> State \<Rightarrow> State" where
  "mtx_unlock k st = log_event (Unlock k) (st\<lparr>ga_mtx := (ga_mtx st)(k := False)\<rparr>)"

text \<open>
  Modelled from the spec: \<^verbatim>\<open>god::align_up<N>\<close> and \<^verbatim>\<open>god::align_down<N>\<close> are declared in
  \<^verbatim>\<open>co/god.h\<close>, which is not among the sources; they round up and down to a multiple of
  the power of two \<open>N\<close> (``\<open>align_up(n, 16)/16\<close>'', ``address alignment down to the
  small-unit boundary'').
\<close>

definition align_up :: "'a::len word \<Rightarrow> 'a word \<Rightarrow> 'a word" where
  "align_up n x = (x + (n - 1)) AND NOT (n - 1)"

definition align_down :: "'a::len word \<Rightarrow> 'a word \<Rightarrow> 'a word" where
  "align_down n x = x AND NOT (n - 1)"

subsection \<open>List primitives\<close>

definition deref :: "ptr \<Rightarrow> unit option" where
  "deref p = (if p = NULL then None else Some ())"

definition set_next :: "ptr \<Rightarrow> ptr \<Rightarrow> (ptr \<Rightarrow> DoubleLink) \<Rightarrow> (ptr \<Rightarrow> DoubleLink)" where
  "set_next a v L = L(a := (L a)\<lparr>dl_next := v\<rparr>)"

definition set_prev :: "ptr \<Rightarrow> ptr \<Rightarrow> (ptr \<Rightarrow> DoubleLink) \<Rightarrow> (ptr \<Rightarrow> DoubleLink)" where
  "set_prev a v L = L(a := (L a)\<lparr>dl_prev := v\<rparr>)"

text \<open>
  Each primitive takes the head \<^verbatim>\<open>l\<close> (passed by reference in the source) and the
  links, and returns the new head, where it can change, and the new links. The
  assignments are made one after the other, as in the source.
\<close>

definition list_push_front ::
    "ptr \<Rightarrow> ptr \<Rightarrow> (ptr \<Rightarrow> DoubleLink) \<Rightarrow> (ptr \<times> (ptr \<Rightarrow> DoubleLink)) option" where
  "list_push_front l node L = do {
     deref node;
     (if l \<noteq> NULL
      then let L1 = set_next node l L;
               L2 = set_prev node (dl_prev (L1 l)) L1;
               L3 = set_prev l node L2
           in Some (node, L3)
      else let L1 = set_next node NULL L;
               L2 = set_prev node node L1
           in Some (node, L2))
   }"

definition list_move_front ::
    "ptr \<Rightarrow> ptr \<Rightarrow> (ptr \<Rightarrow> DoubleLink) \<Rightarrow> (ptr \<times> (ptr \<Rightarrow> DoubleLink)) option" where
  "list_move_front l node L =
     (if node \<noteq> l
      then do {
        deref node;
        deref (dl_prev (L node));
        let L1 = set_next (dl_prev (L node)) (dl_next (L node)) L;
        deref (dl_next (L1 node));
        let L2 = set_prev (dl_next (L1 node)) (dl_prev (L1 node)) L1;
        deref l;
        let L3 = set_prev node (dl_prev (L2 l)) L2;
        let L4 = set_next node l L3;
        let L5 = set_prev l node L4;
        Some (node, L5)
      }
      else Some (l, L))"

definition list_move_head_back ::
    "ptr \<Rightarrow> (ptr \<Rightarrow> DoubleLink) \<Rightarrow> (ptr \<times> (ptr \<Rightarrow> DoubleLink)) option" where
  "list_move_head_back l L = do {
     deref l;
     let head = dl_next (L l);
     deref (dl_prev (L l));
     let L1 = set_next (dl_prev (L l)) l L;
     let L2 = set_next l NULL L1;
     Some (head, L2)
   }"

definition list_erase ::
    "ptr \<Rightarrow> ptr \<Rightarrow> (ptr \<Rightarrow> DoubleLink) \<Rightarrow> (ptr \<Rightarrow> DoubleLink) option" where
  "list_erase l node L = do {
     deref node;
     deref (dl_prev (L node));
     let L1 = set_next (dl_prev (L node)) (dl_next (L node)) L;
     let x = (if dl_next (L1 node) \<noteq> NULL then dl_next (L1 node) else l);
     deref x;
     Some (set_prev x (dl_prev (L1 node)) L1)
   }"

text \<open>
  The nodes of the list with head \<open>l\<close>, in order: \<open>xs\<close> are the addresses reached from \<open>l\<close>
  by \<^verbatim>\<open>next\<close> up to nil. In a well-formed list they are distinct, the \<^verbatim>\<open>prev\<close> of the head
  is the tail and the \<^verbatim>\<open>prev\<close> of every other node is the node before it.
\<close>

fun list_path :: "(ptr \<Rightarrow> DoubleLink) \<Rightarrow> ptr \<Rightarrow> ptr list \<Rightarrow> bool" where
  "list_path L l [] \<longleftrightarrow> l = NULL"
| "list_path L l (x # xs) \<longleftrightarrow> l = x \<and> x \<noteq> NULL \<and> list_path L (dl_next (L x)) xs"

fun prevs_ok :: "(ptr \<Rightarrow> DoubleLink) \<Rightarrow> ptr \<Rightarrow> ptr list \<Rightarrow> bool" where
  "prevs_ok L a [] \<longleftrightarrow> True"
| "prevs_ok L a (x # xs) \<longleftrightarrow> dl_prev (L x) = a \<and> prevs_ok L x xs"

definition list_wf :: "(ptr \<Rightarrow> DoubleLink) \<Rightarrow> ptr \<Rightarrow> ptr list \<Rightarrow> bool" where
  "list_wf L l xs \<longleftrightarrow>
     list_path L l xs \<and> distinct xs \<and> (xs \<noteq> [] \<longrightarrow> prevs_ok L (last xs) xs)"

section \<open>GlobalAlloc\<close>

definition shard :: "uint32 \<Rightarrow> nat" where
  "shard alloc_id = unat (alloc_id AND (g_array_size - 1))"

text \<open>
  \<^verbatim>\<open>make_huge_block\<close> tests the reserved address against nil only. \<^verbatim>\<open>MAP_FAILED\<close> passes
  the test, and the placement \<^verbatim>\<open>new (x) HugeBlock(p)\<close> then writes the header at an address
  that is not mapped: the call does not return, which is the value \<open>None\<close>.
\<close>

definition MAP_FAILED :: ptr where
  "MAP_FAILED = - 1"

definition make_huge_block :: "State \<Rightarrow> (ptr \<times> State) option" where
  "make_huge_block st =
     (case vm_reserve (2 ^ g_hb_bits) st of (x, st1) \<Rightarrow>
        if x \<noteq> NULL
        then if x = MAP_FAILED then None
             else let st2 = vm_commit x 4096 st1;
                      p = align_up (push_bit g_lb_bits 1) x;
                      p' = (if p = x then x + push_bit g_lb_bits 1 else p)
                  in Some (x, st2\<lparr>hbs := (hbs st2)(x := HugeBlock_new p')\<rparr>)
        else Some (NULL, st1))"

text \<open>\<^verbatim>\<open>hb->alloc()\<close> on the block at address \<open>hb\<close> of the store.\<close>

definition hb_alloc_at :: "ptr \<Rightarrow> State \<Rightarrow> ptr \<times> State" where
  "hb_alloc_at hb st =
     (case HugeBlock_alloc (hbs st hb) of (b, p) \<Rightarrow> (p, st\<lparr>hbs := (hbs st)(hb := b)\<rparr>))"

definition hb_free_at :: "ptr \<Rightarrow> ptr \<Rightarrow> State \<Rightarrow> bool \<times> State" where
  "hb_free_at hb p st =
     (case HugeBlock_free (hbs st hb) p of (b, r) \<Rightarrow> (r, st\<lparr>hbs := (hbs st)(hb := b)\<rparr>))"

text \<open>
  The loop of \<^verbatim>\<open>_try_alloc(l, 8)\<close> in \<^verbatim>\<open>GlobalAlloc::alloc\<close>, with the steps that are left,
  the node \<open>k\<close> and the old head \<open>h\<close>; the result is the unit and its parent, nil when
  no block of the scan had room.
\<close>

fun hb_try_loop :: "nat \<Rightarrow> ptr \<Rightarrow> ptr \<Rightarrow> nat \<Rightarrow> State \<Rightarrow> (ptr \<times> ptr \<times> State) option" where
  "hb_try_loop 0 k h x st = Some (NULL, NULL, st)"
| "hb_try_loop (Suc i) k h x st =
     (if k = h then Some (NULL, NULL, st)
      else do {
        deref k;
        (case hb_alloc_at k st of (p, st1) \<Rightarrow>
           if p \<noteq> NULL
           then do {
             (l', L') \<leftarrow> list_move_front (ga_hb st1 x) k (links st1);
             Some (p, k, st1\<lparr>links := L', ga_hb := (ga_hb st1)(x := l')\<rparr>)
           }
           else hb_try_loop i (dl_next (links st1 k)) h x st1)
      })"

text \<open>The part of \<^verbatim>\<open>GlobalAlloc::alloc\<close> that runs under the mutex of shard \<open>x\<close>.\<close>

definition GlobalAlloc_alloc_locked :: "nat \<Rightarrow> State \<Rightarrow> (ptr \<times> ptr \<times> State) option" where
  "GlobalAlloc_alloc_locked x st =
     (case (if ga_hb st x \<noteq> NULL then hb_alloc_at (ga_hb st x) st else (NULL, st)) of
        (p, st1) \<Rightarrow>
          if p \<noteq> NULL then Some (p, ga_hb st1 x, st1)
          else do {
            (p2, parent2, st2) \<leftarrow>
              (let l = ga_hb st1 x in
               if l \<noteq> NULL \<and> dl_next (links st1 l) \<noteq> NULL
               then do {
                 (l', L') \<leftarrow> list_move_head_back l (links st1);
                 hb_try_loop 8 (dl_next (links st1 l)) l x
                   (st1\<lparr>links := L', ga_hb := (ga_hb st1)(x := l')\<rparr>)
               }
               else Some (NULL, NULL, st1));
            (if p2 \<noteq> NULL then Some (p2, parent2, st2)
             else do {
               (hb, st3) \<leftarrow> make_huge_block st2;
               (if hb \<noteq> NULL
                then do {
                  (l', L') \<leftarrow> list_push_front (ga_hb st3 x) hb (links st3);
                  (case hb_alloc_at hb (st3\<lparr>links := L', ga_hb := (ga_hb st3)(x := l')\<rparr>) of
                     (p3, st4) \<Rightarrow> Some (p3, hb, st4))
                }
                else Some (NULL, NULL, st3))
             })
          })"

definition GlobalAlloc_alloc :: "uint32 \<Rightarrow> State \<Rightarrow> (ptr \<times> ptr \<times> State) option" where
  "GlobalAlloc_alloc alloc_id st = do {
     st1 \<leftarrow> mtx_lock (shard alloc_id) st;
     (p, parent, st2) \<leftarrow> GlobalAlloc_alloc_locked (shard alloc_id) st1;
     let st3 = mtx_unlock (shard alloc_id) st2;
     Some (p, parent, if p \<noteq> NULL then vm_commit p (2 ^ g_lb_bits) st3 else st3)
   }"

definition GlobalAlloc_make_large_block :: "uint32 \<Rightarrow> State \<Rightarrow> (ptr \<times> State) option" where
  "GlobalAlloc_make_large_block alloc_id st = do {
     (p, parent, st1) \<leftarrow> GlobalAlloc_alloc alloc_id st;
     Some (if p \<noteq> NULL then (p, st1\<lparr>lbs := (lbs st1)(p := LargeBlock_new p parent)\<rparr>)
           else (NULL, st1))
   }"

definition GlobalAlloc_make_large_alloc :: "uint32 \<Rightarrow> ptr \<Rightarrow> State \<Rightarrow> (ptr \<times> State) option" where
  "GlobalAlloc_make_large_alloc alloc_id g_thread_alloc st = do {
     (p, parent, st1) \<leftarrow> GlobalAlloc_alloc alloc_id st;
     Some (if p \<noteq> NULL
           then (p, st1\<lparr>las := (las st1)(p :=
                   LargeAlloc_new p parent g_thread_alloc (a_bs (las st1 p)) (a_xbs (las st1 p)))\<rparr>)
           else (NULL, st1))
   }"

text \<open>
  The block of \<^verbatim>\<open>GlobalAlloc::free\<close> that runs under the mutex of shard \<open>x\<close>:
  \<^verbatim>\<open>r = hb->free(p) && hb != x.hb; if (r) list_erase((list_t&)x.hb, (DoubleLink*)hb);\<close>
\<close>

definition GlobalAlloc_free_locked :: "ptr \<Rightarrow> ptr \<Rightarrow> nat \<Rightarrow> State \<Rightarrow> (bool \<times> State) option" where
  "GlobalAlloc_free_locked p hb x st =
     (case hb_free_at hb p st of (e, st1) \<Rightarrow>
        let r = (e \<and> hb \<noteq> ga_hb st1 x) in
        if r then do {
          L' \<leftarrow> list_erase (ga_hb st1 x) hb (links st1);
          Some (r, st1\<lparr>links := L'\<rparr>)
        }
        else Some (r, st1))"

definition GlobalAlloc_free :: "ptr \<Rightarrow> ptr \<Rightarrow> uint32 \<Rightarrow> State \<Rightarrow> State option" where
  "GlobalAlloc_free p hb alloc_id st = do {
     let st1 = vm_decommit p (2 ^ g_lb_bits) st;
     st2 \<leftarrow> mtx_lock (shard alloc_id) st1;
     (r, st3) \<leftarrow> GlobalAlloc_free_locked p hb (shard alloc_id) st2;
     let st4 = mtx_unlock (shard alloc_id) st3;
     Some (if r then vm_free hb (2 ^ g_hb_bits) st4 else st4)
   }"

section \<open>ThreadAlloc\<close>

text \<open>
  \<open>this\<close> is the address of the \<^verbatim>\<open>ThreadAlloc\<close> of the calling thread, which is also the
  value of \<^verbatim>\<open>g_thread_alloc\<close> there: the public entry points reach \<^verbatim>\<open>ThreadAlloc\<close> through
  \<^verbatim>\<open>thread_alloc()\<close>.
\<close>

definition set_ta_sa :: "ptr \<Rightarrow> ptr \<Rightarrow> State \<Rightarrow> State" where
  "set_ta_sa this v st = st\<lparr>tas := (tas st)(this := (tas st this)\<lparr>ta_sa := v\<rparr>)\<rparr>"

definition set_ta_lb :: "ptr \<Rightarrow> ptr \<Rightarrow> State \<Rightarrow> State" where
  "set_ta_lb this v st = st\<lparr>tas := (tas st)(this := (tas st this)\<lparr>ta_lb := v\<rparr>)\<rparr>"

definition set_ta_la :: "ptr \<Rightarrow> ptr \<Rightarrow> State \<Rightarrow> State" where
  "set_ta_la this v st = st\<lparr>tas := (tas st)(this := (tas st this)\<lparr>ta_la := v\<rparr>)\<rparr>"

text \<open>Member calls on the allocator or block at an address of the store.\<close>

definition sa_alloc_at :: "ptr \<Rightarrow> uint32 \<Rightarrow> State \<Rightarrow> (ptr \<times> State) option" where
  "sa_alloc_at sa u st = do {
     (a, p) \<leftarrow> Alloc_alloc Small u (sas st sa);
     Some (p, st\<lparr>sas := (sas st)(sa := a)\<rparr>)
   }"

definition sa_try_hard_alloc_at :: "ptr \<Rightarrow> uint32 \<Rightarrow> State \<Rightarrow> (ptr \<times> State) option" where
  "sa_try_hard_alloc_at sa u st = do {
     (a, p) \<leftarrow> Alloc_try_hard_alloc Small u (sas st sa);
     Some (p, st\<lparr>sas := (sas st)(sa := a)\<rparr>)
   }"

definition la_alloc_at :: "ptr \<Rightarrow> uint32 \<Rightarrow> State \<Rightarrow> (ptr \<times> State) option" where
  "la_alloc_at la u st = do {
     (a, p) \<leftarrow> Alloc_alloc Large u (las st la);
     Some (p, st\<lparr>las := (las st)(la := a)\<rparr>)
   }"

definition la_try_hard_alloc_at :: "ptr \<Rightarrow> uint32 \<Rightarrow> State \<Rightarrow> (ptr \<times> State) option" where
  "la_try_hard_alloc_at la u st = do {
     (a, p) \<leftarrow> Alloc_try_hard_alloc Large u (las st la);
     Some (p, st\<lparr>las := (las st)(la := a)\<rparr>)
   }"

text \<open>
  \<^verbatim>\<open>LargeBlock::make_small_alloc\<close>: \<^verbatim>\<open>alloc()\<close> and the constructor of \<^verbatim>\<open>SmallAlloc\<close> at the
  unit, which sets \<^verbatim>\<open>_next\<close> and \<^verbatim>\<open>_prev\<close> to nil and leaves the bitmaps as they are
  in memory.
\<close>

definition LargeBlock_make_small_alloc :: "ptr \<Rightarrow> ptr \<Rightarrow> State \<Rightarrow> ptr \<times> State" where
  "LargeBlock_make_small_alloc lb g_thread_alloc st =
     (case LargeBlock_alloc (lbs st lb) of (b, x) \<Rightarrow>
        let st1 = st\<lparr>lbs := (lbs st)(lb := b)\<rparr> in
        if x \<noteq> NULL
        then (x, st1\<lparr>sas := (sas st1)(x :=
                      SmallAlloc_new x lb g_thread_alloc (a_bs (sas st1 x)) (a_xbs (sas st1 x))),
                   links := (links st1)(x := \<lparr>dl_next = NULL, dl_prev = NULL\<rparr>)\<rparr>)
        else (NULL, st1))"

text \<open>
  The three scans of \<^verbatim>\<open>ThreadAlloc::alloc\<close>, each the loop of a \<^verbatim>\<open>_try_alloc(l, n)\<close>: over
  the other \<^verbatim>\<open>SmallAlloc\<close>s (2 steps), over the other \<^verbatim>\<open>LargeBlock\<close>s (4 steps) and over
  the other \<^verbatim>\<open>LargeAlloc\<close>s (4 steps). The flag of the result says that the scan ended in
  \<^verbatim>\<open>goto end\<close>.
\<close>

fun sa_try_loop ::
    "nat \<Rightarrow> ptr \<Rightarrow> ptr \<Rightarrow> ptr \<Rightarrow> uint32 \<Rightarrow> State \<Rightarrow> (bool \<times> ptr \<times> State) option" where
  "sa_try_loop 0 k h this u st = Some (False, NULL, st)"
| "sa_try_loop (Suc i) k h this u st =
     (if k = h then Some (False, NULL, st)
      else do {
        deref k;
        (p, st1) \<leftarrow> sa_try_hard_alloc_at k u st;
        (if p \<noteq> NULL
         then do {
           (l', L') \<leftarrow> list_move_front (ta_sa (tas st1 this)) k (links st1);
           Some (True, p, set_ta_sa this l' (st1\<lparr>links := L'\<rparr>))
         }
         else sa_try_loop i (dl_next (links st1 k)) h this u st1)
      })"

fun lb_try_loop ::
    "nat \<Rightarrow> ptr \<Rightarrow> ptr \<Rightarrow> ptr \<Rightarrow> uint32 \<Rightarrow> State \<Rightarrow> (bool \<times> ptr \<times> State) option" where
  "lb_try_loop 0 k h this u st = Some (False, NULL, st)"
| "lb_try_loop (Suc i) k h this u st =
     (if k = h then Some (False, NULL, st)
      else do {
        deref k;
        (case LargeBlock_make_small_alloc k this st of (sa, st1) \<Rightarrow>
           if sa \<noteq> NULL
           then do {
             (l', L') \<leftarrow> list_move_front (ta_lb (tas st1 this)) k (links st1);
             (p, st2) \<leftarrow> sa_alloc_at sa u (set_ta_lb this l' (st1\<lparr>links := L'\<rparr>));
             Some (True, p, st2)
           }
           else lb_try_loop i (dl_next (links st1 k)) h this u st1)
      })"

fun la_try_loop ::
    "nat \<Rightarrow> ptr \<Rightarrow> ptr \<Rightarrow> ptr \<Rightarrow> uint32 \<Rightarrow> State \<Rightarrow> (bool \<times> ptr \<times> State) option" where
  "la_try_loop 0 k h this u st = Some (False, NULL, st)"
| "la_try_loop (Suc i) k h this u st =
     (if k = h then Some (False, NULL, st)
      else do {
        deref k;
        (p, st1) \<leftarrow> la_try_hard_alloc_at k u st;
        (if p \<noteq> NULL
         then do {
           (l', L') \<leftarrow> list_move_front (ta_la (tas st1 this)) k (links st1);
           Some (True, p, set_ta_la this l' (st1\<lparr>links := L'\<rparr>))
         }
         else la_try_loop i (dl_next (links st1 k)) h this u st1)
      })"

text \<open>
  The branch \<^verbatim>\<open>n <= 2048\<close> of \<^verbatim>\<open>ThreadAlloc::alloc\<close>, from the unit count \<open>u\<close> on. Its four
  steps are the four places of the source that end in \<^verbatim>\<open>goto end\<close>.
\<close>

definition small_from_lb :: "ptr \<Rightarrow> uint32 \<Rightarrow> State \<Rightarrow> (ptr \<times> State) option" where
  "small_from_lb this u st = do {
     (done, p, st1) \<leftarrow>
       (let l = ta_lb (tas st this) in
        if l \<noteq> NULL \<and> dl_next (links st l) \<noteq> NULL
        then do {
          (l', L') \<leftarrow> list_move_head_back l (links st);
          lb_try_loop 4 (dl_next (links st l)) l this u (set_ta_lb this l' (st\<lparr>links := L'\<rparr>))
        }
        else Some (False, NULL, st));
     (if done then Some (p, st1)
      else do {
        (lb, st2) \<leftarrow> GlobalAlloc_make_large_block (ta_id (tas st1 this)) st1;
        (if lb \<noteq> NULL
         then do {
           (l', L') \<leftarrow> list_push_front (ta_lb (tas st2 this)) lb (links st2);
           (case LargeBlock_make_small_alloc lb this (set_ta_lb this l' (st2\<lparr>links := L'\<rparr>)) of
              (sa, st3) \<Rightarrow> do {
                (l2, L2) \<leftarrow> list_push_front (ta_sa (tas st3 this)) sa (links st3);
                sa_alloc_at sa u (set_ta_sa this l2 (st3\<lparr>links := L2\<rparr>))
              })
         }
         else Some (NULL, st2))
      })
   }"

definition small_alloc :: "ptr \<Rightarrow> uint32 \<Rightarrow> State \<Rightarrow> (ptr \<times> State) option" where
  "small_alloc this u st = do {
     (p, st1) \<leftarrow>
       (if ta_sa (tas st this) \<noteq> NULL then sa_alloc_at (ta_sa (tas st this)) u st
        else Some (NULL, st));
     (if p \<noteq> NULL then Some (p, st1)
      else do {
        (done, p2, st2) \<leftarrow>
          (let l = ta_sa (tas st1 this) in
           if l \<noteq> NULL \<and> dl_next (links st1 l) \<noteq> NULL
           then do {
             (l', L') \<leftarrow> list_move_head_back l (links st1);
             sa_try_loop 2 (dl_next (links st1 l)) l this u
               (set_ta_sa this l' (st1\<lparr>links := L'\<rparr>))
           }
           else Some (False, NULL, st1));
        (if done then Some (p2, st2)
         else case (if ta_lb (tas st2 this) \<noteq> NULL
                    then LargeBlock_make_small_alloc (ta_lb (tas st2 this)) this st2
                    else (NULL, st2)) of
           (sa, st3) \<Rightarrow>
             if sa \<noteq> NULL
             then do {
               (l', L') \<leftarrow> list_push_front (ta_sa (tas st3 this)) sa (links st3);
               sa_alloc_at sa u (set_ta_sa this l' (st3\<lparr>links := L'\<rparr>))
             }
             else small_from_lb this u st3)
      })
   }"

text \<open>The branch \<^verbatim>\<open>n <= g_max_alloc_size\<close>, from the unit count \<open>u\<close> on.\<close>

definition large_alloc :: "ptr \<Rightarrow> uint32 \<Rightarrow> State \<Rightarrow> (ptr \<times> State) option" where
  "large_alloc this u st = do {
     (p, st1) \<leftarrow>
       (if ta_la (tas st this) \<noteq> NULL then la_alloc_at (ta_la (tas st this)) u st
        else Some (NULL, st));
     (if p \<noteq> NULL then Some (p, st1)
      else do {
        (done, p2, st2) \<leftarrow>
          (let l = ta_la (tas st1 this) in
           if l \<noteq> NULL \<and> dl_next (links st1 l) \<noteq> NULL
           then do {
             (l', L') \<leftarrow> list_move_head_back l (links st1);
             la_try_loop 4 (dl_next (links st1 l)) l this u
               (set_ta_la this l' (st1\<lparr>links := L'\<rparr>))
           }
           else Some (False, NULL, st1));
        (if done then Some (p2, st2)
         else do {
           (la, st3) \<leftarrow> GlobalAlloc_make_large_alloc (ta_id (tas st2 this)) this st2;
           (if la \<noteq> NULL
            then do {
              (l', L') \<leftarrow> list_push_front (ta_la (tas st3 this)) la (links st3);
              la_alloc_at la u (set_ta_la this l' (st3\<lparr>links := L'\<rparr>))
            }
            else Some (NULL, st3))
         })
      })
   }"

text \<open>
  The unit counts: \<^verbatim>\<open>n > 16 ? (god::align_up<16>((uint32)n) >> 4) : 1\<close> and
  \<^verbatim>\<open>god::align_up<4096>((uint32)n) >> 12\<close>.
\<close>

definition small_units :: "size_t \<Rightarrow> uint32" where
  "small_units n = (if n > 16 then drop_bit 4 (align_up 16 (ucast n :: uint32)) else 1)"

definition large_units :: "size_t \<Rightarrow> uint32" where
  "large_units n = drop_bit 12 (align_up 4096 (ucast n :: uint32))"

definition ThreadAlloc_alloc :: "ptr \<Rightarrow> size_t \<Rightarrow> State \<Rightarrow> (ptr \<times> State) option" where
  "ThreadAlloc_alloc this n st =
     (if n \<le> 2048 then small_alloc this (small_units n) st
      else if n \<le> g_max_alloc_size then large_alloc this (large_units n) st
      else Some (sys_malloc n st))"

text \<open>\<^verbatim>\<open>lb->free(sa)\<close> on the block at address \<open>lb\<close> of the store.\<close>

definition lb_free_at :: "ptr \<Rightarrow> ptr \<Rightarrow> State \<Rightarrow> bool \<times> State" where
  "lb_free_at lb p st =
     (case LargeBlock_free (lbs st lb) p of (b, r) \<Rightarrow> (r, st\<lparr>lbs := (lbs st)(lb := b)\<rparr>))"

definition ThreadAlloc_free :: "ptr \<Rightarrow> ptr \<Rightarrow> size_t \<Rightarrow> State \<Rightarrow> State option" where
  "ThreadAlloc_free this p n st =
     (if p \<noteq> NULL
      then
        if n \<le> 2048
        then
          let sa = align_down (push_bit g_sb_bits 1) p;
              ta = a_ta (sas st sa)
          in if ta = this
             then do {
               (a, e) \<leftarrow> Alloc_free Small p (sas st sa);
               let st1 = st\<lparr>sas := (sas st)(sa := a)\<rparr>;
               (if e \<and> sa \<noteq> ta_sa (tas st1 this)
                then do {
                  L' \<leftarrow> list_erase (ta_sa (tas st1 this)) sa (links st1);
                  let st2 = st1\<lparr>links := L'\<rparr>;
                  let lb = a_parent (sas st2 sa);
                  (case lb_free_at lb sa st2 of (e2, st3) \<Rightarrow>
                     if e2 \<and> lb \<noteq> ta_lb (tas st3 this)
                     then do {
                       L2 \<leftarrow> list_erase (ta_lb (tas st3 this)) lb (links st3);
                       GlobalAlloc_free lb (lb_parent (lbs st3 lb)) (ta_id (tas st3 this))
                         (st3\<lparr>links := L2\<rparr>)
                     }
                     else Some st3)
                }
                else Some st1)
             }
             else do {
               a \<leftarrow> Alloc_xfree Small p (sas st sa);
               Some (st\<lparr>sas := (sas st)(sa := a)\<rparr>)
             }
        else if n \<le> g_max_alloc_size
        then
          let la = align_down (push_bit g_lb_bits 1) p;
              ta = a_ta (las st la)
          in if ta = this
             then do {
               (a, e) \<leftarrow> Alloc_free Large p (las st la);
               let st1 = st\<lparr>las := (las st)(la := a)\<rparr>;
               (if e \<and> la \<noteq> ta_la (tas st1 this)
                then do {
                  L' \<leftarrow> list_erase (ta_la (tas st1 this)) la (links st1);
                  GlobalAlloc_free la (a_parent (las st1 la)) (ta_id (tas st1 this))
                    (st1\<lparr>links := L'\<rparr>)
                }
                else Some st1)
             }
             else do {
               a \<leftarrow> Alloc_xfree Large p (las st la);
               Some (st\<lparr>las := (las st)(la := a)\<rparr>)
             }
        else Some (sys_free p st)
      else Some st)"

subsection \<open>An example store\<close>

text \<open>
  Thread 1 owns the small allocator \<open>sa3\<close> at \<open>0x8000\<close> and the large allocator \<open>la3\<close> at
  \<open>0x200000\<close>; shard 0 holds two huge blocks, at \<open>0x8000000\<close> (the head) and at
  \<open>0x10000000\<close>, each with its first Large unit in use. No mutex is held.
\<close>

definition st_ex :: State where
  "st_ex =
     \<lparr>links = (\<lambda>_. \<lparr>dl_next = NULL, dl_prev = NULL\<rparr>)
        (134217728 := \<lparr>dl_next = 268435456, dl_prev = 268435456\<rparr>,
         268435456 := \<lparr>dl_next = NULL, dl_prev = 134217728\<rparr>),
      hbs = (\<lambda>_. HugeBlock_new NULL)
        (134217728 := \<lparr>hb_p = 136314880, hb_bits = 1\<rparr>,
         268435456 := \<lparr>hb_p = 270532608, hb_bits = 1\<rparr>),
      lbs = (\<lambda>_. LargeBlock_new NULL NULL),
      las = (\<lambda>_. la0)(2097152 := la3),
      sas = (\<lambda>_. sa0)(32768 := sa3),
      tas = (\<lambda>_. \<lparr>ta_lb = NULL, ta_la = NULL, ta_sa = NULL, ta_id = 0\<rparr>)
        (1 := \<lparr>ta_lb = NULL, ta_la = 2097152, ta_sa = 32768, ta_id = 0\<rparr>),
      ga_hb = (\<lambda>_. NULL)(0 := 134217728),
      ga_mtx = (\<lambda>_. False),
      trace = [],
      vm_fresh = [],
      sys_fresh = []\<rparr>"

section \<open>Facts about the bit scans and the bitmap\<close>

lemma cell_idx_div: "cell_idx i = unat i div 64"
  by (simp add: cell_idx_def B_def drop_bit_eq_div unat_div)

lemma R_eq: "R = 63" by (simp add: R_def B_def)

lemma unat_and_R: "unat (i AND R) = unat i mod 64"
proof -
  have "i AND R = take_bit 6 i" by (simp add: R_eq take_bit_eq_mask mask_eq_exp_minus_1)
  thus ?thesis by (simp add: take_bit_eq_mod unat_mod) 
qed

lemma bit_cell_mask: "bit (cell_mask i) n \<longleftrightarrow> n = unat i mod 64"
  by (auto simp add: cell_mask_def C_def unat_and_R bit_push_bit_iff bit_1_iff bit_exp_iff)

lemma word64_nonzero_bit: 
  assumes "(x::64 word) \<noteq> 0" shows "\<exists>m<64. bit x m"
proof -
  from assms obtain m where m: "bit x m" by (auto simp: bit_eq_iff)
  then have "m < 64" using bit_imp_le_length[of x m] by simp
  with m show ?thesis by blast
qed

lemma clz_scan_bit:
  "\<exists>m<n. bit x m \<Longrightarrow> bit x (n - 1 - clz_scan x n) \<and> (\<forall>m. n - 1 - clz_scan x n < m \<and> m < n \<longrightarrow> \<not> bit x m) \<and> clz_scan x n < n"
proof (induction n)
  case 0 then show ?case by simp
next
  case (Suc n)
  show ?case
  proof (cases "bit x n")
    case True then show ?thesis by auto
  next
    case False
    with Suc.prems have "\<exists>m<n. bit x m" by (metis less_Suc_eq)
    from Suc.IH[OF this] False show ?thesis 
      by (auto simp: less_Suc_eq)
  qed
qed

lemma find_msb_props:
  assumes "x \<noteq> 0"
  shows "0 \<le> find_msb x" "find_msb x < 64" "bit x (nat (find_msb x))"
    "\<And>m. nat (find_msb x) < m \<Longrightarrow> \<not> bit x m"
proof -
  from word64_nonzero_bit[OF assms] have ex: "\<exists>m<64. bit x m" .
  note c = clz_scan_bit[OF ex]
  have lt: "clz_scan x 64 < 64" using c by simp
  then have eq: "nat (find_msb x) = 64 - 1 - clz_scan x 64"
    by (simp add: find_msb_def builtin_clzll_def)
  show "0 \<le> find_msb x" using lt by (simp add: find_msb_def builtin_clzll_def)
  show "find_msb x < 64" by (simp add: find_msb_def builtin_clzll_def)
  show "bit x (nat (find_msb x))" using c eq by simp
  fix m assume m: "nat (find_msb x) < m"
  show "\<not> bit x m"
  proof (cases "m < 64")
    case True then show ?thesis using c m eq by auto
  next
    case False then show ?thesis using bit_imp_le_length[of x m] by auto
  qed
qed

lemma ffs_scan_props:
  "\<exists>m. i \<le> m \<and> m < i + k \<and> bit x m \<Longrightarrow>
     (\<exists>l. ffs_scan x i k = Suc l \<and> i \<le> l \<and> l < i + k \<and> bit x l \<and> (\<forall>m. i \<le> m \<and> m < l \<longrightarrow> \<not> bit x m))"
proof (induction k arbitrary: i)
  case 0 then show ?case by auto
next
  case (Suc k)
  show ?case
  proof (cases "bit x i")
    case True then show ?thesis by auto
  next
    case False
    with Suc.prems have "\<exists>m. Suc i \<le> m \<and> m < Suc i + k \<and> bit x m"
      by (metis Suc_leI add_Suc add_Suc_right le_neq_implies_less)
    from Suc.IH[OF this] obtain l where l: "ffs_scan x (Suc i) k = Suc l" "Suc i \<le> l" "l < Suc i + k" "bit x l"
      "\<forall>m. Suc i \<le> m \<and> m < l \<longrightarrow> \<not> bit x m" by blast
    have "\<forall>m. i \<le> m \<and> m < l \<longrightarrow> \<not> bit x m"
      using l(5) False by (metis Suc_leI le_neq_implies_less)
    with l False show ?thesis by auto
  qed
qed

lemma ffs_scan_none: "\<forall>m. i \<le> m \<and> m < i + k \<longrightarrow> \<not> bit x m \<Longrightarrow> ffs_scan x i k = 0"
  by (induction k arbitrary: i) auto

lemma find_lsb_props:
  assumes "x \<noteq> 0"
  shows "unat (find_lsb x) < 64" "bit x (unat (find_lsb x))"
    "\<And>m. m < unat (find_lsb x) \<Longrightarrow> \<not> bit x m"
proof -
  from word64_nonzero_bit[OF assms] have "\<exists>m. 0 \<le> m \<and> m < 0 + 64 \<and> bit x m" by auto
  from ffs_scan_props[OF this] obtain l where l: "ffs_scan x 0 64 = Suc l" "l < 64" "bit x l"
     "\<forall>m. m < l \<longrightarrow> \<not> bit x m" by auto
  have "find_lsb x = word_of_nat l" by (simp add: find_lsb_def builtin_ffsll_def l(1))
  then have eq: "unat (find_lsb x) = l" using l(2) by (simp add: unat_of_nat)
  show "unat (find_lsb x) < 64" "bit x (unat (find_lsb x))" using eq l by auto
  fix m assume "m < unat (find_lsb x)" then show "\<not> bit x m" using eq l by auto
qed

lemma find_lsb_zero: "find_lsb 0 = - 1"
  by (simp add: find_lsb_def builtin_ffsll_def ffs_scan_none)

lemma push_bit_B: "push_bit B (n::nat) = n * 64"
  by (simp add: B_def push_bit_eq_mult)

lemma bit_at_cell: "n < length s \<Longrightarrow> m < 64 \<Longrightarrow> bit_at s (n * 64 + m) = bit (s ! n) m"
  by (simp add: bit_at_def)

lemma bit_at_zero_cell: "s ! (j div 64) = 0 \<Longrightarrow> \<not> bit_at s j"
  by (simp add: bit_at_def)

lemma rfind_cell_hit:
  assumes n: "n < length s" and nz: "s ! n \<noteq> 0"
  defines "r \<equiv> find_msb (s ! n) + int (push_bit B n)"
  shows "0 \<le> r" "nat r < (n + 1) * 64" "bit_at s (nat r)" 
        "\<And>j. j < (n + 1) * 64 \<Longrightarrow> bit_at s j \<Longrightarrow> j \<le> nat r"
proof -
  note p = find_msb_props[OF nz]
  define m where "m = nat (find_msb (s ! n))"
  have m: "m < 64" "find_msb (s ! n) = int m" using p(1,2) by (auto simp: m_def)
  have r: "nat r = n * 64 + m" by (simp add: r_def push_bit_B m(2))
  show "0 \<le> r" by (simp add: r_def m(2))
  show "nat r < (n + 1) * 64" using m(1) by (simp add: r)
  show "bit_at s (nat r)" using p(3) m(1) n by (simp add: r bit_at_cell m_def)
  fix j assume j: "j < (n + 1) * 64" "bit_at s j"
  show "j \<le> nat r"
  proof (cases "j div 64 = n")
    case True
    with j(2) have "bit (s ! n) (j mod 64)" by (simp add: bit_at_def)
    then have "j mod 64 \<le> m" using p(4)[of "j mod 64"] by (auto simp: m_def not_less[symmetric])
    moreover have "j = n * 64 + j mod 64" using True by (metis div_mult_mod_eq)
    ultimately show ?thesis by (simp add: r)
  next
    case False
    have "j div 64 < n + 1" using j(1) by (simp add: div_less_iff_less_mult)
    with False have "j div 64 < n" by simp
    then have "j < n * 64" by (simp add: div_less_iff_less_mult)
    then show ?thesis by (simp add: r)
  qed
qed

lemma rfind_loop_spec:
  "n < length s \<Longrightarrow>
   \<exists>r. rfind_loop s n = Some r \<and>
     ((r = - 1 \<and> (\<forall>j < (n + 1) * 64. \<not> bit_at s j)) \<or>
      (0 \<le> r \<and> nat r < (n + 1) * 64 \<and> bit_at s (nat r) \<and>
       (\<forall>j < (n + 1) * 64. bit_at s j \<longrightarrow> j \<le> nat r)))"
proof (induction n)
  case 0
  show ?case
  proof (cases "s ! 0 = 0")
    case True
    have "\<forall>j<64. \<not> bit_at s j" using True by (simp add: bit_at_def)
    with 0 True show ?thesis by simp
  next
    case False
    from rfind_cell_hit[OF 0 False] 0 False show ?thesis by auto
  qed
next
  case (Suc n)
  show ?case
  proof (cases "s ! Suc n = 0")
    case True
    from Suc.prems have "n < length s" by simp
    from Suc.IH[OF this] obtain r where r: "rfind_loop s n = Some r"
      "(r = - 1 \<and> (\<forall>j < (n + 1) * 64. \<not> bit_at s j)) \<or>
      (0 \<le> r \<and> nat r < (n + 1) * 64 \<and> bit_at s (nat r) \<and>
       (\<forall>j < (n + 1) * 64. bit_at s j \<longrightarrow> j \<le> nat r))" by blast
    have hi: "\<not> bit_at s j" if "(n + 1) * 64 \<le> j" "j < (Suc n + 1) * 64" for j
    proof -
      have "j div 64 = Suc n" using that by (intro div_nat_eqI) auto
      then show ?thesis using True by (simp add: bit_at_def)
    qed
    have eq: "rfind_loop s (Suc n) = Some r" using True Suc.prems r(1) by simp
    from r(2) show ?thesis
    proof
      assume a: "r = - 1 \<and> (\<forall>j < (n + 1) * 64. \<not> bit_at s j)"
      then have "\<forall>j < (Suc n + 1) * 64. \<not> bit_at s j" using hi by (metis not_less)
      with a eq show ?thesis by blast
    next
      assume a: "0 \<le> r \<and> nat r < (n + 1) * 64 \<and> bit_at s (nat r) \<and>
       (\<forall>j < (n + 1) * 64. bit_at s j \<longrightarrow> j \<le> nat r)"
      then have "\<forall>j < (Suc n + 1) * 64. bit_at s j \<longrightarrow> j \<le> nat r" using hi by (metis not_less)
      moreover have "nat r < (Suc n + 1) * 64" using a by simp
      ultimately show ?thesis using a eq by blast
    qed
  next
    case False
    from rfind_cell_hit[OF Suc.prems False] Suc.prems False show ?thesis by auto
  qed
qed

text \<open>
  Claim C4. For every bitmap \<open>s\<close> and every index \<open>i\<close> inside it, \<^verbatim>\<open>rfind(i)\<close> returns the
  largest index of a set bit that is at most \<open>(i/W + 1) * W - 1\<close>, and \<open>-1\<close> when no bit
  at or below that bound is set.
\<close>

theorem Bitset_rfind_largest_set_bit:
  assumes "unat i < 64 * length s"
  shows "Bitset_rfind s i =
           Some (if \<exists>j \<le> rfind_bound i. bit_at s j
                 then int (Max {j. j \<le> rfind_bound i \<and> bit_at s j})
                 else - 1)"
proof -
  let ?n = "unat i div 64"
  have n: "?n < length s" using assms by (simp add: div_less_iff_less_mult mult.commute)
  have lt: "j \<le> rfind_bound i \<longleftrightarrow> j < (?n + 1) * 64" for j
    by (auto simp: rfind_bound_def)
  from rfind_loop_spec[OF n] obtain r where r: "rfind_loop s ?n = Some r"
      "(r = - 1 \<and> (\<forall>j < (?n + 1) * 64. \<not> bit_at s j)) \<or>
      (0 \<le> r \<and> nat r < (?n + 1) * 64 \<and> bit_at s (nat r) \<and>
       (\<forall>j < (?n + 1) * 64. bit_at s j \<longrightarrow> j \<le> nat r))" by blast
  from r(2) show ?thesis
  proof
    assume "r = - 1 \<and> (\<forall>j < (?n + 1) * 64. \<not> bit_at s j)"
    then show ?thesis using r(1) by (simp add: Bitset_rfind_def cell_idx_div lt)
  next
    assume a: "0 \<le> r \<and> nat r < (?n + 1) * 64 \<and> bit_at s (nat r) \<and>
       (\<forall>j < (?n + 1) * 64. bit_at s j \<longrightarrow> j \<le> nat r)"
    let ?S = "{j. j \<le> rfind_bound i \<and> bit_at s j}"
    have fin: "finite ?S" by simp
    have "Max ?S = nat r"
      by (rule Max_eqI) (use a in \<open>auto simp: lt\<close>)
    moreover have "\<exists>j \<le> rfind_bound i. bit_at s j" using a lt by blast
    ultimately show ?thesis using r(1) a by (simp add: Bitset_rfind_def cell_idx_div)
  qed
qed

section \<open>Facts about slot indices and the constants\<close>

lemma unit_shift_le: "unit_shift k \<le> 12"
  by (cases k) auto

lemma slot_index_bits:
  assumes "n < 32"
  shows "bit (slot_index k a p) n = bit (p - a_p a) (unit_shift k + n)"
  using assms unit_shift_le[of k]
  by (auto simp add: slot_index_def bit_word_ucast_iff bit_signed_drop_bit_iff)

lemma slot_index_eq:
  assumes "unat (p - a_p a) < 2 ^ 32"
  shows "slot_index k a p = word_of_nat (slot_of k a p)"
proof (rule bit_word_eqI)
  fix n assume n: "n < LENGTH(32)"
  let ?d = "p - a_p a"
  have "bit (word_of_nat (slot_of k a p) :: uint32) n = bit (unat ?d div 2 ^ unit_shift k) n"
    using n by (simp add: slot_of_def slot_size_def bit_of_nat_iff)
  also have "\<dots> = bit (unat ?d) (unit_shift k + n)"
    by (simp add: bit_drop_bit_eq flip: drop_bit_eq_div)
  also have "\<dots> = bit ?d (unit_shift k + n)"
    by (simp add: bit_unsigned_iff)
  finally show "bit (slot_index k a p) n = bit (word_of_nat (slot_of k a p) :: uint32) n"
    using slot_index_bits[of n k a p] n by simp
qed

lemma MAX_bIT_word: "MAX_bIT Small = 2012" "MAX_bIT Large = 511"
  by (simp_all add: g_sb_bits_def g_lb_bits_def B_def SA_SIZE_def)

lemma BS_BITS_word: "BS_BITS Small = 2048" "BS_BITS Large = 512"
  by (simp_all add: g_sb_bits_def g_lb_bits_def B_def)

declare MAX_bIT.simps [simp del] BS_BITS.simps [simp del]

lemma MAX_bIT_val: "unat (MAX_bIT Small) = 2012" "unat (MAX_bIT Large) = 511"
  by (simp_all add: MAX_bIT_word)

lemma MAX_bIT_le: "unat (MAX_bIT k) \<le> 2012"
  by (cases k) (simp_all add: MAX_bIT_val)

lemma sint_word_of_nat_small: "n < 2 ^ 31 \<Longrightarrow> sint (word_of_nat n :: uint32) = int n"
  by (simp add: signed_of_nat signed_take_bit_int_eq_self)

lemma n_cells_val: "n_cells Small = 32" "n_cells Large = 8"
  by (simp_all add: n_cells_def BS_BITS_word B_def drop_bit_eq_div unat_div)

lemma MAX_bIT_cells: "unat (MAX_bIT k) < 64 * n_cells k"
  by (cases k) (simp_all add: MAX_bIT_val n_cells_val)

lemma slot_size_val: "slot_size Small = 16" "slot_size Large = 4096"
  by (simp_all add: slot_size_def)

lemma inside_slot_lt: "inside k a p \<Longrightarrow> slot_of k a p < unat (MAX_bIT k)"
  by (simp add: inside_def slot_of_def slot_size_def div_less_iff_less_mult)

lemma inside_small: "inside k a p \<Longrightarrow> unat (p - a_p a) < 2 ^ 32"
proof -
  assume "inside k a p"
  then have "unat (p - a_p a) < unat (MAX_bIT k) * slot_size k" by (simp add: inside_def)
  also have "\<dots> \<le> 2012 * 4096" 
    by (cases k) (simp_all add: MAX_bIT_val slot_size_val)
  finally show ?thesis by simp
qed

lemma slot_index_inside:
  assumes "inside k a p"
  shows "slot_index k a p = word_of_nat (slot_of k a p)" "unat (slot_index k a p) = slot_of k a p"
       "sint (slot_index k a p) = int (slot_of k a p)"
proof -
  show eq: "slot_index k a p = word_of_nat (slot_of k a p)"
    using slot_index_eq[OF inside_small[OF assms]] .
  have lt: "slot_of k a p < 2012" using inside_slot_lt[OF assms] MAX_bIT_le[of k] by simp
  show u: "unat (slot_index k a p) = slot_of k a p" using lt by (simp add: eq unat_of_nat)
  show "sint (slot_index k a p) = int (slot_of k a p)"
    using lt by (simp add: eq sint_word_of_nat_small)
qed

lemma bit_at_update:
  "n < length s \<Longrightarrow> bit_at (s[n := v]) j = (if j div 64 = n then bit v (j mod 64) else bit_at s j)"
  by (simp add: bit_at_def)

lemma idx_in_range: "cell_idx i < length s \<longleftrightarrow> unat i < 64 * length s"
  by (simp add: cell_idx_div div_less_iff_less_mult mult.commute)

lemma bit_at_set:
  assumes "cell_idx i < length s"
  shows "bit_at (s[cell_idx i := s ! cell_idx i OR cell_mask i]) j \<longleftrightarrow> bit_at s j \<or> j = unat i"
proof -
  have "j = unat i \<longleftrightarrow> j div 64 = unat i div 64 \<and> j mod 64 = unat i mod 64"
    by (metis div_mult_mod_eq)
  then show ?thesis using assms
    by (cases "j div 64 = unat i div 64")
       (auto simp: bit_or_iff bit_cell_mask cell_idx_div bit_at_def nth_list_update)
qed

lemma bit_at_unset:
  assumes "cell_idx i < length s"
  shows "bit_at (s[cell_idx i := s ! cell_idx i AND NOT (cell_mask i)]) j \<longleftrightarrow> bit_at s j \<and> j \<noteq> unat i"
proof -
  have "j = unat i \<longleftrightarrow> j div 64 = unat i div 64 \<and> j mod 64 = unat i mod 64"
    by (metis div_mult_mod_eq)
  then show ?thesis using assms
    by (cases "j div 64 = unat i div 64")
       (auto simp: bit_and_iff bit_not_iff bit_cell_mask cell_idx_div bit_at_def nth_list_update)
qed

lemma Bitset_set_ok:
  assumes "unat i < 64 * length s"
  shows "\<exists>s'. Bitset_set s i = Some s' \<and> length s' = length s \<and>
           (\<forall>j. bit_at s' j \<longleftrightarrow> bit_at s j \<or> j = unat i)"
  using assms by (simp add: Bitset_set_def idx_in_range bit_at_set)

lemma Bitset_atomic_set_ok:
  assumes "unat i < 64 * length s"
  shows "\<exists>s'. Bitset_atomic_set s i = Some s' \<and> length s' = length s \<and>
           (\<forall>j. bit_at s' j \<longleftrightarrow> bit_at s j \<or> j = unat i)"
  using assms by (simp add: Bitset_atomic_set_def idx_in_range bit_at_set)

lemma Bitset_unset_ok:
  assumes "unat i < 64 * length s"
  shows "\<exists>s'. Bitset_unset s i = Some s' \<and> length s' = length s \<and>
           (\<forall>j. bit_at s' j \<longleftrightarrow> bit_at s j \<and> j \<noteq> unat i)"
  using assms by (simp add: Bitset_unset_def idx_in_range bit_at_unset)

lemma Bitset_rfind_cases:
  assumes "unat c < 64 * length s"
  obtains (none) "Bitset_rfind s c = Some (- 1)" "\<And>j. j \<le> rfind_bound c \<Longrightarrow> \<not> bit_at s j"
  | (some) m where "Bitset_rfind s c = Some (int m)" "m \<le> rfind_bound c" "bit_at s m"
       "\<And>j. j \<le> rfind_bound c \<Longrightarrow> bit_at s j \<Longrightarrow> j \<le> m"
proof -
  let ?n = "unat c div 64"
  have n: "?n < length s" using assms by (simp add: div_less_iff_less_mult mult.commute)
  have lt: "j \<le> rfind_bound c \<longleftrightarrow> j < (?n + 1) * 64" for j
    by (auto simp: rfind_bound_def)
  from rfind_loop_spec[OF n] obtain r where r: "rfind_loop s ?n = Some r"
      "(r = - 1 \<and> (\<forall>j < (?n + 1) * 64. \<not> bit_at s j)) \<or>
      (0 \<le> r \<and> nat r < (?n + 1) * 64 \<and> bit_at s (nat r) \<and>
       (\<forall>j < (?n + 1) * 64. bit_at s j \<longrightarrow> j \<le> nat r))" by blast
  from r(2) show ?thesis
  proof
    assume "r = - 1 \<and> (\<forall>j < (?n + 1) * 64. \<not> bit_at s j)"
    then show ?thesis using r(1) none by (simp add: Bitset_rfind_def cell_idx_div lt)
  next
    assume a: "0 \<le> r \<and> nat r < (?n + 1) * 64 \<and> bit_at s (nat r) \<and>
       (\<forall>j < (?n + 1) * 64. bit_at s j \<longrightarrow> j \<le> nat r)"
    show ?thesis
      by (rule some[of "nat r"]) (use a r(1) in \<open>auto simp: Bitset_rfind_def cell_idx_div lt\<close>)
  qed
qed

lemma le_rfind_bound: "j \<le> unat c \<Longrightarrow> j \<le> rfind_bound c"
proof -
  assume "j \<le> unat c"
  moreover have "unat c < (unat c div 64 + 1) * 64"
    using div_mult_mod_eq[of "unat c" 64] by (simp add: algebra_simps)
  ultimately show ?thesis by (simp add: rfind_bound_def)
qed

section \<open>The owner's free\<close>

lemma Alloc_shapeD:
  assumes "Alloc_shape k a"
  shows "length (a_bs a) = n_cells k" "length (a_xbs a) = n_cells k"
    "unat (a_cur_bit a) \<le> unat (MAX_bIT k)" "unat (a_cur_bit a) < 64 * n_cells k"
  using assms MAX_bIT_cells[of k] by (auto simp: Alloc_shape_def word_le_nat_alt)

lemma Alloc_invD:
  assumes "Alloc_inv k a"
  shows "Alloc_shape k a" "\<And>j. bit_at (a_bs a) j \<Longrightarrow> j < unat (a_cur_bit a)"
    "\<And>j. bit_at (a_xbs a) j \<Longrightarrow> bit_at (a_bs a) j"
    "(\<And>j. \<not> bit_at (a_bs a) j) \<Longrightarrow> a_cur_bit a = 0"
  using assms by (auto simp: Alloc_inv_def)

text \<open>
  Claim C1. For a \<^verbatim>\<open>SmallAlloc\<close> or \<^verbatim>\<open>LargeAlloc\<close> that satisfies the cursor invariant and
  a pointer \<open>p\<close> to an object it owns (inside the payload, its bit set in \<open>bs\<close>), with
  \<open>i = (p - base) / slot_size\<close>: \<^verbatim>\<open>free(p)\<close> clears bit \<open>i\<close> of \<open>bs\<close> and nothing else,
  takes \<open>r = bs.rfind(cur_bit)\<close> on the cleared bitmap (\<open>r\<close> is \<open>-1\<close> or not negative),
  sets \<open>cur_bit\<close> to \<open>i\<close> when \<open>0 \<le> r < i\<close>, to 0 when \<open>r = -1\<close>, and leaves it unchanged
  when \<open>r \<ge> i\<close>; it returns true exactly when \<open>cur_bit\<close> is 0 afterwards. \<open>xbs\<close> and the
  other fields are unchanged.
\<close>

theorem Alloc_free_spec:
  assumes inv: "Alloc_inv k a" and ins: "inside k a p" and bit: "bit_at (a_bs a) (slot_of k a p)"
  shows "\<exists>a' b r. Alloc_free k p a = Some (a', b) \<and>
            length (a_bs a') = length (a_bs a) \<and>
            (\<forall>j. bit_at (a_bs a') j \<longleftrightarrow> bit_at (a_bs a) j \<and> j \<noteq> slot_of k a p) \<and>
            Bitset_rfind (a_bs a') (a_cur_bit a) = Some r \<and>
            (r = - 1 \<or> 0 \<le> r) \<and>
            a_cur_bit a' =
              (if r < int (slot_of k a p)
               then (if 0 \<le> r then word_of_nat (slot_of k a p) else 0)
               else a_cur_bit a) \<and>
            (b \<longleftrightarrow> a_cur_bit a' = 0) \<and>
            a_xbs a' = a_xbs a \<and> a_p a' = a_p a \<and> a_parent a' = a_parent a \<and> a_ta a' = a_ta a"
proof -
  let ?i = "slot_of k a p"
  note sh = Alloc_shapeD[OF Alloc_invD(1)[OF inv]]
  note si = slot_index_inside[OF ins]
  have i_lt: "?i < unat (MAX_bIT k)" by (rule inside_slot_lt[OF ins])
  have "unat (slot_index k a p) < 64 * length (a_bs a)"
    using i_lt MAX_bIT_cells[of k] by (simp add: si(2) sh(1))
  from Bitset_unset_ok[OF this] obtain bs' where bs':
    "Bitset_unset (a_bs a) (slot_index k a p) = Some bs'" "length bs' = length (a_bs a)"
    "\<forall>j. bit_at bs' j \<longleftrightarrow> bit_at (a_bs a) j \<and> j \<noteq> ?i"
    by (auto simp: si(2))
  have cur_pos: "a_cur_bit a \<noteq> 0"
    using Alloc_invD(2)[OF inv bit] by (auto simp: unat_eq_zero)
  have rng: "unat (a_cur_bit a) < 64 * length bs'" using sh by (simp add: bs'(2))
  obtain r where r: "Bitset_rfind bs' (a_cur_bit a) = Some r" "r = - 1 \<or> 0 \<le> r"
    using rng by (cases rule: Bitset_rfind_cases) auto
  define c where "c = (if 0 \<le> r then slot_index k a p else 0)"
  have eq: "Alloc_free k p a =
      Some (if r < int ?i then (a\<lparr>a_bs := bs', a_cur_bit := c\<rparr>, c = 0)
            else (a\<lparr>a_bs := bs'\<rparr>, False))"
    using bs'(1) r(1) by (simp add: Alloc_free_def Let_def si(3) c_def)
  have c: "c = (if 0 \<le> r then word_of_nat ?i else 0)" by (simp add: c_def si(1))
  show ?thesis
  proof (cases "r < int ?i")
    case True
    show ?thesis
      apply (rule exI[of _ "a\<lparr>a_bs := bs', a_cur_bit := c\<rparr>"])
      apply (rule exI[of _ "c = 0"])
      apply (rule exI[of _ r])
      using True eq bs' r c by simp
  next
    case False
    show ?thesis
      apply (rule exI[of _ "a\<lparr>a_bs := bs'\<rparr>"])
      apply (rule exI[of _ "False"])
      apply (rule exI[of _ r])
      using False eq bs' r cur_pos by simp
  qed
qed

section \<open>Allocation and the cursor invariant\<close>

lemma word_add_le_no_wrap:
  fixes c n m :: uint32
  assumes "unat c + unat n < 2 ^ 32"
  shows "c + n \<le> m \<longleftrightarrow> unat c + unat n \<le> unat m" "unat (c + n) = unat c + unat n"
proof -
  show u: "unat (c + n) = unat c + unat n" using assms by (simp add: unat_add_lem[THEN iffD1])
  show "c + n \<le> m \<longleftrightarrow> unat c + unat n \<le> unat m" by (simp add: word_le_nat_alt u)
qed

lemma slot_offset:
  assumes "unat c \<le> unat (MAX_bIT k)"
  shows "(ucast (push_bit (unit_shift k) c :: uint32) :: ptr) = word_of_nat (unat c * slot_size k)"
proof -
  have lt: "unat c * slot_size k < 2 ^ 32"
  proof -
    have "unat c * slot_size k \<le> 2012 * 4096"
      using assms MAX_bIT_le[of k] by (cases k) (auto simp: slot_size_val intro!: mult_le_mono)
    then show ?thesis by simp
  qed
  have "unat (push_bit (unit_shift k) c :: uint32) = unat c * slot_size k"
  proof -
    have "unat (push_bit (unit_shift k) c :: uint32) = unat c * unat (2 ^ unit_shift k :: uint32) mod 2 ^ 32"
      by (simp add: push_bit_eq_mult unat_word_ariths)
    moreover have "unat (2 ^ unit_shift k :: uint32) = slot_size k"
      by (cases k) (simp_all add: slot_size_def)
    ultimately show ?thesis using lt by simp
  qed
  then show ?thesis by (metis of_nat_unat)
qed

lemma Alloc_alloc_ok:
  assumes sh: "Alloc_shape k a" and fit: "unat (a_cur_bit a) + unat n \<le> unat (MAX_bIT k)"
  shows "\<exists>bs'. Alloc_alloc k n a =
            Some (a\<lparr>a_bs := bs', a_cur_bit := a_cur_bit a + n\<rparr>,
                  a_p a + word_of_nat (unat (a_cur_bit a) * slot_size k)) \<and>
          length bs' = length (a_bs a) \<and>
          (\<forall>j. bit_at bs' j \<longleftrightarrow> bit_at (a_bs a) j \<or> j = unat (a_cur_bit a)) \<and>
          unat (a_cur_bit a + n) = unat (a_cur_bit a) + unat n"
proof -
  note s = Alloc_shapeD[OF sh]
  have nw: "unat (a_cur_bit a) + unat n < 2 ^ 32" using fit MAX_bIT_le[of k] by simp
  note w = word_add_le_no_wrap[OF nw]
  have "unat (a_cur_bit a) < 64 * length (a_bs a)" using s by simp
  from Bitset_set_ok[OF this] obtain bs' where bs': "Bitset_set (a_bs a) (a_cur_bit a) = Some bs'"
    "length bs' = length (a_bs a)" "\<forall>j. bit_at bs' j \<longleftrightarrow> bit_at (a_bs a) j \<or> j = unat (a_cur_bit a)"
    by blast
  show ?thesis
    apply (rule exI[of _ bs'])
    using bs' fit w slot_offset[OF s(3)] by (simp add: Alloc_alloc_def)
qed

lemma Alloc_alloc_full:
  assumes sh: "Alloc_shape k a" and nw: "unat (a_cur_bit a) + unat n < 2 ^ 32"
    and big: "unat (MAX_bIT k) < unat (a_cur_bit a) + unat n"
  shows "Alloc_alloc k n a = Some (a, NULL)"
  using big word_add_le_no_wrap[OF nw] by (simp add: Alloc_alloc_def)

lemma Alloc_inv_alloc:
  assumes inv: "Alloc_inv k a" and n: "0 < unat n" "unat n \<le> unat (MAX_bIT k)"
    and res: "Alloc_alloc k n a = Some (a', p)"
  shows "Alloc_inv k a'"
proof (cases "unat (a_cur_bit a) + unat n \<le> unat (MAX_bIT k)")
  case True
  note sh = Alloc_invD(1)[OF inv]
  from Alloc_alloc_ok[OF sh True] res obtain bs' where
    a': "a' = a\<lparr>a_bs := bs', a_cur_bit := a_cur_bit a + n\<rparr>"
    and bs': "length bs' = length (a_bs a)"
      "\<forall>j. bit_at bs' j \<longleftrightarrow> bit_at (a_bs a) j \<or> j = unat (a_cur_bit a)"
    and u: "unat (a_cur_bit a + n) = unat (a_cur_bit a) + unat n" by auto
  have "Alloc_shape k a'" using sh True u bs'(1)
    by (simp add: a' Alloc_shape_def word_le_nat_alt)
  moreover have "\<forall>j. bit_at (a_bs a') j \<longrightarrow> j < unat (a_cur_bit a')"
  proof (intro allI impI)
    fix j assume "bit_at (a_bs a') j"
    then have "bit_at (a_bs a) j \<or> j = unat (a_cur_bit a)" using bs'(2) by (simp add: a')
    then have "j \<le> unat (a_cur_bit a)" using Alloc_invD(2)[OF inv, of j] by auto
    then show "j < unat (a_cur_bit a')" using n(1) u by (simp add: a')
  qed
  moreover have "\<forall>j. bit_at (a_xbs a') j \<longrightarrow> bit_at (a_bs a') j"
    using Alloc_invD(3)[OF inv] bs'(2) by (auto simp: a')
  moreover have "\<exists>j. bit_at (a_bs a') j" using bs'(2) by (auto simp: a')
  ultimately show ?thesis by (auto simp: Alloc_inv_def)
next
  case False
  have "unat (a_cur_bit a) + unat n < 2 ^ 32"
    using Alloc_shapeD(3)[OF Alloc_invD(1)[OF inv]] n(2) MAX_bIT_le[of k] by simp
  from Alloc_alloc_full[OF Alloc_invD(1)[OF inv] this] False res have "a' = a" by simp
  then show ?thesis using inv by simp
qed

lemma Alloc_inv_new:
  "Alloc_inv Small (SmallAlloc_new this parent t (replicate 32 0) (replicate 32 0))"
  "Alloc_inv Large (LargeAlloc_new this parent t (replicate 8 0) (replicate 8 0))"
  by (simp_all add: Alloc_inv_def Alloc_shape_def SmallAlloc_new_def LargeAlloc_new_def n_cells_val
        bit_at_def)

lemma Alloc_free_unfold:
  assumes sh: "Alloc_shape k a" and ins: "inside k a p"
  obtains bs' r where
    "length bs' = length (a_bs a)"
    "\<And>j. bit_at bs' j \<longleftrightarrow> bit_at (a_bs a) j \<and> j \<noteq> slot_of k a p"
    "Bitset_rfind bs' (a_cur_bit a) = Some r"
    "Alloc_free k p a =
      Some (if r < int (slot_of k a p)
            then (a\<lparr>a_bs := bs', a_cur_bit := (if 0 \<le> r then word_of_nat (slot_of k a p) else 0)\<rparr>,
                  (if 0 \<le> r then word_of_nat (slot_of k a p) else (0::uint32)) = 0)
            else (a\<lparr>a_bs := bs'\<rparr>, False))"
proof -
  let ?i = "slot_of k a p"
  note s = Alloc_shapeD[OF sh]
  note si = slot_index_inside[OF ins]
  have i_lt: "?i < unat (MAX_bIT k)" by (rule inside_slot_lt[OF ins])
  have "unat (slot_index k a p) < 64 * length (a_bs a)"
    using i_lt MAX_bIT_cells[of k] by (simp add: si(2) s(1))
  from Bitset_unset_ok[OF this] obtain bs' where bs':
    "Bitset_unset (a_bs a) (slot_index k a p) = Some bs'" "length bs' = length (a_bs a)"
    "\<forall>j. bit_at bs' j \<longleftrightarrow> bit_at (a_bs a) j \<and> j \<noteq> ?i"
    by (auto simp: si(2))
  have rng: "unat (a_cur_bit a) < 64 * length bs'" using s by (simp add: bs'(2))
  obtain r where r: "Bitset_rfind bs' (a_cur_bit a) = Some r"
    using rng by (cases rule: Bitset_rfind_cases) auto
  have eq: "Alloc_free k p a =
      Some (if r < int ?i
            then (a\<lparr>a_bs := bs', a_cur_bit := (if 0 \<le> r then slot_index k a p else 0)\<rparr>,
                  (if 0 \<le> r then slot_index k a p else 0) = 0)
            else (a\<lparr>a_bs := bs'\<rparr>, False))"
    using bs'(1) r(1) by (simp add: Alloc_free_def Let_def si(3))
  show ?thesis
    by (rule that[of bs' r]) (use bs' r eq in \<open>simp_all add: si(1)\<close>)
qed

lemma word_of_nat_slot_unat:
  assumes "inside k a p"
  shows "unat (word_of_nat (slot_of k a p) :: uint32) = slot_of k a p"
  using slot_index_inside[OF assms] by simp

lemma Alloc_inv_free:
  assumes inv: "Alloc_inv k a" and lv: "live k a p" and res: "Alloc_free k p a = Some (a', b)"
  shows "Alloc_inv k a'"
proof -
  let ?i = "slot_of k a p"
  note sh = Alloc_invD(1)[OF inv]
  note s = Alloc_shapeD[OF sh]
  from lv have ins: "inside k a p" and bit: "bit_at (a_bs a) ?i" and nx: "\<not> bit_at (a_xbs a) ?i"
    by (auto simp: live_def)
  have i_lt: "?i < unat (MAX_bIT k)" by (rule inside_slot_lt[OF ins])
  obtain bs' r where bs': "length bs' = length (a_bs a)"
    "\<And>j. bit_at bs' j \<longleftrightarrow> bit_at (a_bs a) j \<and> j \<noteq> ?i"
    and r: "Bitset_rfind bs' (a_cur_bit a) = Some r"
    and eq: "Alloc_free k p a =
      Some (if r < int ?i
            then (a\<lparr>a_bs := bs', a_cur_bit := (if 0 \<le> r then word_of_nat ?i else 0)\<rparr>,
                  (if 0 \<le> r then word_of_nat ?i else (0::uint32)) = 0)
            else (a\<lparr>a_bs := bs'\<rparr>, False))"
    by (rule Alloc_free_unfold[OF sh ins]) blast
  have below: "j \<le> rfind_bound (a_cur_bit a)" if "bit_at bs' j" for j
    using that bs'(2) Alloc_invD(2)[OF inv, of j] le_rfind_bound[of j "a_cur_bit a"] by auto
  have xsub: "bit_at bs' j" if "bit_at (a_xbs a) j" for j
    using that nx Alloc_invD(3)[OF inv, of j] bs'(2) by auto
  have rng: "unat (a_cur_bit a) < 64 * length bs'" using s by (simp add: bs'(1))
  from rng show ?thesis
  proof (cases rule: Bitset_rfind_cases)
    case none
    then have empty: "\<not> bit_at bs' j" for j using below by blast
    have "r = - 1" using none(1) r by simp
    then have "a' = a\<lparr>a_bs := bs', a_cur_bit := 0\<rparr>" using eq res by simp
    then show ?thesis using empty xsub s bs'(1)
      by (auto simp: Alloc_inv_def Alloc_shape_def)
  next
    case (some m)
    have rm: "r = int m" using some(1) r by simp
    have top: "j \<le> m" if "bit_at bs' j" for j using some(4) below that by blast
    show ?thesis
    proof (cases "m < ?i")
      case True
      then have a': "a' = a\<lparr>a_bs := bs', a_cur_bit := word_of_nat ?i\<rparr>" using eq res rm by simp
      have u: "unat (word_of_nat ?i :: uint32) = ?i" by (rule word_of_nat_slot_unat[OF ins])
      have "Alloc_shape k a'" using s bs'(1) i_lt u
        by (simp add: a' Alloc_shape_def word_le_nat_alt)
      moreover have "\<forall>j. bit_at (a_bs a') j \<longrightarrow> j < unat (a_cur_bit a')"
        using top True u by (auto simp: a' dest!: top)
      moreover have "\<forall>j. bit_at (a_xbs a') j \<longrightarrow> bit_at (a_bs a') j"
        using xsub by (simp add: a')
      moreover have "\<exists>j. bit_at (a_bs a') j" using some(3) by (auto simp: a')
      ultimately show ?thesis by (auto simp: Alloc_inv_def)
    next
      case False
      then have a': "a' = a\<lparr>a_bs := bs'\<rparr>" using eq res rm by simp
      have "Alloc_shape k a'" using sh bs'(1) by (simp add: a' Alloc_shape_def)
      moreover have "\<forall>j. bit_at (a_bs a') j \<longrightarrow> j < unat (a_cur_bit a')"
        using bs'(2) Alloc_invD(2)[OF inv] by (auto simp: a')
      moreover have "\<forall>j. bit_at (a_xbs a') j \<longrightarrow> bit_at (a_bs a') j"
        using xsub by (simp add: a')
      moreover have "\<exists>j. bit_at (a_bs a') j" using some(3) by (auto simp: a')
      ultimately show ?thesis by (auto simp: Alloc_inv_def)
    qed
  qed
qed

lemma Alloc_xfree_ok:
  assumes sh: "Alloc_shape k a" and ins: "inside k a p"
  shows "\<exists>xbs'. Alloc_xfree k p a = Some (a\<lparr>a_xbs := xbs'\<rparr>) \<and> length xbs' = length (a_xbs a) \<and>
            (\<forall>j. bit_at xbs' j \<longleftrightarrow> bit_at (a_xbs a) j \<or> j = slot_of k a p)"
proof -
  note s = Alloc_shapeD[OF sh]
  note si = slot_index_inside[OF ins]
  have "unat (slot_index k a p) < 64 * length (a_xbs a)"
    using inside_slot_lt[OF ins] MAX_bIT_cells[of k] by (simp add: si(2) s(2))
  from Bitset_atomic_set_ok[OF this] show ?thesis
    by (auto simp: Alloc_xfree_def si(2))
qed

lemma Alloc_inv_xfree:
  assumes inv: "Alloc_inv k a" and lv: "live k a p" and res: "Alloc_xfree k p a = Some a'"
  shows "Alloc_inv k a'"
proof -
  from lv have ins: "inside k a p" and bit: "bit_at (a_bs a) (slot_of k a p)"
    by (auto simp: live_def)
  from Alloc_xfree_ok[OF Alloc_invD(1)[OF inv] ins] res obtain xbs' where
    a': "a' = a\<lparr>a_xbs := xbs'\<rparr>" and x: "length xbs' = length (a_xbs a)"
    "\<forall>j. bit_at xbs' j \<longleftrightarrow> bit_at (a_xbs a) j \<or> j = slot_of k a p" by auto
  show ?thesis using inv bit x
    by (auto simp: a' Alloc_inv_def Alloc_shape_def)
qed

lemma Alloc_realloc_unfold:
  assumes ins: "inside k a p"
  shows "Alloc_realloc k p o' n a =
           (if a_cur_bit a = word_of_nat (slot_of k a p) + o' \<and>
               word_of_nat (slot_of k a p) + n \<le> MAX_bIT k
            then (a\<lparr>a_cur_bit := word_of_nat (slot_of k a p) + n\<rparr>, p)
            else (a, NULL))"
  by (simp add: Alloc_realloc_def Let_def slot_index_inside(1)[OF ins])

lemma Alloc_inv_realloc:
  assumes inv: "Alloc_inv k a" and ins: "inside k a p"
    and on: "0 < unat o'" "unat o' \<le> unat n" "unat n \<le> unat (MAX_bIT k)"
  shows "Alloc_inv k (fst (Alloc_realloc k p o' n a))"
proof (cases "a_cur_bit a = word_of_nat (slot_of k a p) + o' \<and>
               word_of_nat (slot_of k a p) + n \<le> MAX_bIT k")
  case False
  then have "Alloc_realloc k p o' n a = (a, NULL)"
    by (simp only: Alloc_realloc_unfold[OF ins] if_False)
  then show ?thesis using inv by simp
next
  case True
  let ?i = "word_of_nat (slot_of k a p) :: uint32"
  have u: "unat ?i = slot_of k a p" by (rule word_of_nat_slot_unat[OF ins])
  have i_lt: "unat ?i < unat (MAX_bIT k)" using inside_slot_lt[OF ins] u by simp
  have nwn: "unat ?i + unat n < 2 ^ 32" using i_lt on MAX_bIT_le[of k] by simp
  have nwo: "unat ?i + unat o' < 2 ^ 32" using i_lt on MAX_bIT_le[of k] by simp
  note wn = word_add_le_no_wrap[OF nwn] and wo = word_add_le_no_wrap[OF nwo]
  have cur: "unat (a_cur_bit a) = unat ?i + unat o'" using True wo(2) by simp
  have a': "fst (Alloc_realloc k p o' n a) = a\<lparr>a_cur_bit := ?i + n\<rparr>"
    by (subst Alloc_realloc_unfold[OF ins], subst if_P[OF True]) simp
  have ne: "a_cur_bit a \<noteq> 0" using cur on(1) by (auto simp: unat_eq_zero)
  then have ex: "\<exists>j. bit_at (a_bs a) j" using Alloc_invD(4)[OF inv] by blast
  have "Alloc_shape k (a\<lparr>a_cur_bit := ?i + n\<rparr>)"
    using Alloc_invD(1)[OF inv] True by (simp add: Alloc_shape_def)
  moreover have "\<forall>j. bit_at (a_bs a) j \<longrightarrow> j < unat (?i + n)"
    using Alloc_invD(2)[OF inv] cur on(2) wn(2) by fastforce
  ultimately show ?thesis using Alloc_invD(3)[OF inv] ex
    by (auto simp: a' Alloc_inv_def)
qed

section \<open>The scan of \<^verbatim>\<open>try_hard_alloc\<close> refines its description\<close>

lemma mem_bits_of: "j \<in> bits_of s \<longleftrightarrow> bit_at s j"
  by (auto simp: bits_of_def bit_at_def div_less_iff_less_mult mult.commute)

lemma finite_bits_of: "finite (bits_of s)"
  by (simp add: bits_of_def)

lemma Bitset_rfind_spec_rfind:
  assumes "unat c < 64 * length s"
  shows "Bitset_rfind s c = Some (spec_rfind (bits_of s) (unat c))"
  using assms
proof (cases rule: Bitset_rfind_cases)
  case none
  then show ?thesis by (auto simp: spec_rfind_def mem_bits_of rfind_bound_def)
next
  case (some m)
  let ?S = "{j \<in> bits_of s. j \<le> (unat c div 64 + 1) * 64 - 1}"
  have "Max ?S = m"
    by (rule Max_eqI) (use some in \<open>auto simp: mem_bits_of rfind_bound_def finite_bits_of\<close>)
  moreover have "\<exists>j\<in>bits_of s. j \<le> (unat c div 64 + 1) * 64 - 1"
    using some by (auto simp: mem_bits_of rfind_bound_def)
  ultimately show ?thesis using some(1) by (simp add: spec_rfind_def)
qed

lemma mem_cell_bits:
  "i < length s \<Longrightarrow> j \<in> cell_bits s i \<longleftrightarrow> j div 64 = i \<and> bit (s ! i) (j mod 64)"
  by (auto simp: cell_bits_def mem_bits_of bit_at_def)

lemma cell_bits_empty:
  assumes "i < length s"
  shows "cell_bits s i = {} \<longleftrightarrow> s ! i = 0"
proof
  assume e: "cell_bits s i = {}"
  show "s ! i = 0"
  proof (rule ccontr)
    assume "s ! i \<noteq> 0"
    from word64_nonzero_bit[OF this] obtain m where m: "m < 64" "bit (s ! i) m" by blast
    then have "i * 64 + m \<in> cell_bits s i" using assms by (simp add: mem_cell_bits)
    with e show False by simp
  qed
next
  assume "s ! i = 0"
  then show "cell_bits s i = {}" using assms by (auto simp: mem_cell_bits)
qed

lemma bits_of_clear_cell:
  assumes "i < length s"
  shows "bits_of (s[i := s ! i AND NOT (s ! i)]) = bits_of s - cell_bits s i"
proof (rule set_eqI)
  fix j
  show "j \<in> bits_of (s[i := s ! i AND NOT (s ! i)]) \<longleftrightarrow> j \<in> bits_of s - cell_bits s i"
    using assms
    by (cases "j div 64 = i")
       (auto simp: mem_bits_of mem_cell_bits bit_at_def nth_list_update bit_and_iff bit_not_iff)
qed

lemma bits_of_clear_other:
  assumes "i < length s" "i < length q"
  shows "bits_of (s[i := s ! i AND NOT (q ! i)]) = bits_of s - cell_bits q i"
proof (rule set_eqI)
  fix j
  show "j \<in> bits_of (s[i := s ! i AND NOT (q ! i)]) \<longleftrightarrow> j \<in> bits_of s - cell_bits q i"
    using assms
    by (cases "j div 64 = i")
       (auto simp: mem_bits_of mem_cell_bits bit_at_def nth_list_update bit_and_iff bit_not_iff)
qed

lemma cell_lsb:
  assumes i: "i < length q" "length q \<le> 32" and nz: "q ! i \<noteq> 0"
  defines "l \<equiv> find_lsb (q ! i) + word_of_nat (push_bit B i)"
  shows "unat l = Min (cell_bits q i)" "sint l = int (Min (cell_bits q i))" 
        "unat l < 64 * (i + 1)" "(word_of_int (sint l) :: uint32) = l"
proof -
  note p = find_lsb_props[OF nz]
  have "unat (word_of_nat (push_bit B i) :: uint32) = i * 64"
    using i by (simp only: push_bit_B unat_of_nat) simp
  then have u: "unat l = unat (find_lsb (q ! i)) + i * 64"
    using p(1) i unfolding l_def by (subst unat_add_lem[THEN iffD1]) auto
  have mem: "unat l \<in> cell_bits q i" using p(1,2) i(1) by (simp add: mem_cell_bits u)
  have least: "unat l \<le> j" if "j \<in> cell_bits q i" for j
  proof -
    from that have j: "j div 64 = i" "bit (q ! i) (j mod 64)" using i(1) by (auto simp: mem_cell_bits)
    have "unat (find_lsb (q ! i)) \<le> j mod 64" using p(3)[of "j mod 64"] j(2) by (auto simp: not_less[symmetric])
    moreover have "j = i * 64 + j mod 64" using j(1) by (metis div_mult_mod_eq)
    ultimately show ?thesis by (simp add: u)
  qed
  have fin: "finite (cell_bits q i)" by (simp add: cell_bits_def finite_bits_of)
  show m: "unat l = Min (cell_bits q i)"
    by (rule sym, rule Min_eqI[OF fin]) (use mem least in auto)
  show lt: "unat l < 64 * (i + 1)" using p(1) by (simp add: u)
  have "unat l < 2 ^ 31" using lt i by simp
  then have "sint l = int (unat l)"
    by (metis sint_word_of_nat_small of_nat_unat ucast_id)
  then show "sint l = int (Min (cell_bits q i))" by (simp add: m)
  show "(word_of_int (sint l) :: uint32) = l" by simp
qed

lemma abs_of_simps:
  "s_bs (abs_of a) = bits_of (a_bs a)" "s_xbs (abs_of a) = bits_of (a_xbs a)"
  "s_cur (abs_of a) = unat (a_cur_bit a)"
  by (simp_all add: abs_of_def)

lemma try_hard_body_refines:
  assumes len: "length (a_bs a) = N" "length (a_xbs a) = N" "N \<le> 32"
    and i: "i < N" and cur: "unat (a_cur_bit a) < 64 * N"
  shows "\<exists>a' stop. try_hard_body i a = Some (a', stop) \<and>
           spec_drain_cell i (abs_of a) = (abs_of a', stop) \<and>
           length (a_bs a') = N \<and> length (a_xbs a') = N \<and> unat (a_cur_bit a') < 64 * N \<and>
           a_p a' = a_p a \<and> a_parent a' = a_parent a \<and> a_ta a' = a_ta a"
proof (cases "a_xbs a ! i = 0")
  case True
  then have "cell_bits (a_xbs a) i = {}" using cell_bits_empty[of i "a_xbs a"] i len by simp
  then have "spec_drain_cell i (abs_of a) = (abs_of a, False)"
    by (simp add: spec_drain_cell_def abs_of_simps cell_bits_def)
  moreover have "try_hard_body i a = Some (a, False)" using True i len
    by (simp add: try_hard_body_def)
  ultimately show ?thesis using len cur by auto
next
  case False
  let ?x = "a_xbs a ! i"
  let ?q = "(a_xbs a)[i := a_xbs a ! i AND NOT ?x]"
  let ?p = "(a_bs a)[i := a_bs a ! i AND NOT ?x]"
  let ?l = "find_lsb ?x + word_of_nat (push_bit B i)"
  let ?X = "cell_bits (a_xbs a) i"
  have iq: "i < length (a_xbs a)" "length (a_xbs a) \<le> 32" "i < length (a_bs a)" using i len by auto
  note lsb = cell_lsb[OF iq(1,2) False]
  have ne: "?X \<noteq> {}" using cell_bits_empty[OF iq(1)] False by simp
  have q: "bits_of ?q = bits_of (a_xbs a) - ?X" by (rule bits_of_clear_cell[OF iq(1)])
  have p: "bits_of ?p = bits_of (a_bs a) - ?X" by (rule bits_of_clear_other[OF iq(3,1)])
  have "unat (a_cur_bit a) < 64 * length ?p" using cur len by simp
  note rf = Bitset_rfind_spec_rfind[OF this]
  define r where "r = spec_rfind (bits_of ?p) (unat (a_cur_bit a))"
  define a1 where "a1 = a\<lparr>a_bs := ?p, a_xbs := ?q\<rparr>"
  define c where "c = (if 0 \<le> r then ?l else 0)"
  have body: "try_hard_body i a =
      Some (if r \<ge> sint ?l then (a1, True) else (a1\<lparr>a_cur_bit := c\<rparr>, c = 0))"
    using False iq rf
    by (simp add: try_hard_body_def Let_def r_def a1_def c_def lsb(4))
  define s1 where "s1 = (abs_of a)\<lparr>s_bs := bits_of (a_bs a) - ?X, s_xbs := bits_of (a_xbs a) - ?X\<rparr>"
  have s1: "s1 = abs_of a1" using p q by (simp add: s1_def a1_def abs_of_def)
  define cn where "cn = (if 0 \<le> r then Min ?X else 0)"
  have spec: "spec_drain_cell i (abs_of a) =
      (if r \<ge> int (Min ?X) then (s1, True) else (s1\<lparr>s_cur := cn\<rparr>, cn = 0))"
    using ne
    by (simp add: spec_drain_cell_def Let_def abs_of_simps r_def p s1_def cn_def flip: cell_bits_def)
  have cu: "unat c = cn" by (simp add: c_def cn_def lsb(1))
  have c0: "c = 0 \<longleftrightarrow> cn = 0" using cu by (metis unat_eq_zero)
  have clt: "unat c < 64 * N" using lsb(3) i by (auto simp: c_def) 
  show ?thesis
  proof (cases "r \<ge> sint ?l")
    case True
    then show ?thesis using body spec len cur
      by (auto simp add: lsb(2) s1 a1_def)
  next
    case False
    have "abs_of (a1\<lparr>a_cur_bit := c\<rparr>) = (abs_of a1)\<lparr>s_cur := cn\<rparr>"
      by (simp add: abs_of_def cu)
    then show ?thesis using False body spec len clt c0
      by (auto simp add: lsb(2) s1 a1_def)
  qed
qed

lemma try_hard_loop_refines:
  assumes len: "length (a_bs a) = N" "length (a_xbs a) = N" "N \<le> 32"
    and i: "i < N" and cur: "unat (a_cur_bit a) < 64 * N"
  shows "\<exists>a'. try_hard_loop i a = Some a' \<and> spec_drain i (abs_of a) = abs_of a' \<and>
           length (a_bs a') = N \<and> length (a_xbs a') = N \<and> unat (a_cur_bit a') < 64 * N \<and>
           a_p a' = a_p a \<and> a_parent a' = a_parent a \<and> a_ta a' = a_ta a"
  using assms
proof (induction i arbitrary: a)
  case 0
  from try_hard_body_refines[OF 0(1,2,3,4,5)] show ?case by auto
next
  case (Suc i)
  from try_hard_body_refines[OF Suc.prems(1,2,3,4,5)] obtain a1 stop where
    b: "try_hard_body (Suc i) a = Some (a1, stop)"
       "spec_drain_cell (Suc i) (abs_of a) = (abs_of a1, stop)"
       "length (a_bs a1) = N" "length (a_xbs a1) = N" "unat (a_cur_bit a1) < 64 * N"
       "a_p a1 = a_p a" "a_parent a1 = a_parent a" "a_ta a1 = a_ta a" by blast
  show ?case
  proof (cases stop)
    case True
    then show ?thesis using b by simp
  next
    case False
    have "i < N" using Suc.prems(4) by simp
    from Suc.IH[OF b(3,4) Suc.prems(3) this b(5)] False b show ?thesis by auto
  qed
qed

lemma Alloc_inv_spec_inv: "Alloc_inv k a \<longleftrightarrow> Alloc_shape k a \<and> spec_inv (abs_of a)"
  by (auto simp: Alloc_inv_def spec_inv_def abs_of_simps mem_bits_of finite_bits_of subset_iff
        unat_eq_zero)

lemma spec_rfind_below:
  assumes "finite S" "\<And>j. j \<in> S \<Longrightarrow> j < c"
  shows "spec_rfind S c = (if S = {} then - 1 else int (Max S))"
proof -
  have "j \<le> (c div 64 + 1) * 64 - 1" if "j \<in> S" for j
  proof -
    have "c < (c div 64 + 1) * 64" using div_mult_mod_eq[of c 64] by (simp add: algebra_simps)
    then show ?thesis using assms(2)[OF that] by simp
  qed
  then have "{j \<in> S. j \<le> (c div 64 + 1) * 64 - 1} = S" by auto
  then show ?thesis by (auto simp: spec_rfind_def)
qed

lemma spec_drain_cell_inv:
  assumes inv: "spec_inv s" and res: "spec_drain_cell i s = (s', stop)"
  shows "spec_inv s' \<and> s_cur s' \<le> s_cur s"
proof (cases "{j \<in> s_xbs s. j div 64 = i} = {}")
  case True
  then show ?thesis using inv res by (simp add: spec_drain_cell_def)
next
  case False
  let ?x = "{j \<in> s_xbs s. j div 64 = i}"
  let ?S1 = "s_bs s - ?x"
  from inv have fin: "finite (s_bs s)" and below: "\<And>j. j \<in> s_bs s \<Longrightarrow> j < s_cur s"
    and sub: "s_xbs s \<subseteq> s_bs s" by (auto simp: spec_inv_def)
  have "?x \<subseteq> s_bs s" using sub by auto
  then have finx: "finite ?x" using fin by (rule finite_subset)
  have "Min ?x \<in> ?x" using False finx by (rule_tac Min_in) auto
  then have lsb: "Min ?x < s_cur s" using sub below by auto
  have finS1: "finite ?S1" using fin by simp
  have r: "spec_rfind ?S1 (s_cur s) = (if ?S1 = {} then - 1 else int (Max ?S1))"
    by (rule spec_rfind_below[OF finS1]) (use below in auto)
  define s1 where "s1 = s\<lparr>s_bs := ?S1, s_xbs := s_xbs s - ?x\<rparr>"
  define c where "c = (if 0 \<le> spec_rfind ?S1 (s_cur s) then Min ?x else 0)"
  have eq: "spec_drain_cell i s =
      (if spec_rfind ?S1 (s_cur s) \<ge> int (Min ?x) then (s1, True) else (s1\<lparr>s_cur := c\<rparr>, c = 0))"
    by (simp only: spec_drain_cell_def Let_def s1_def c_def if_not_P[OF False]) simp
  show ?thesis
  proof (cases "spec_rfind ?S1 (s_cur s) \<ge> int (Min ?x)")
    case True
    then have ne: "?S1 \<noteq> {}" using r by (auto split: if_splits)
    have "s' = s1" using eq True res by simp
    then show ?thesis using fin below sub ne by (auto simp: spec_inv_def s1_def)
  next
    case nge: False
    then have s': "s' = s1\<lparr>s_cur := c\<rparr>" using eq res by simp
    show ?thesis
    proof (cases "?S1 = {}")
      case True
      then have "c = 0" using r by (simp add: c_def)
      moreover have "s_xbs s - ?x = {}" using True sub by auto
      ultimately show ?thesis using True finS1 by (auto simp add: spec_inv_def s' s1_def)
    next
      case ne: False
      then have c: "c = Min ?x" and mx: "Max ?S1 < Min ?x" using r nge by (auto simp: c_def)
      have "j < c" if "j \<in> ?S1" for j
        using Max_ge[OF finS1 that] mx c by simp
      then show ?thesis using ne finS1 sub lsb c
        by (auto simp: spec_inv_def s' s1_def)
    qed
  qed
qed

lemma spec_drain_inv:
  "spec_inv s \<Longrightarrow> spec_inv (spec_drain i s) \<and> s_cur (spec_drain i s) \<le> s_cur s"
proof (induction i arbitrary: s)
  case 0
  obtain s' stop where r: "spec_drain_cell 0 s = (s', stop)" by (cases "spec_drain_cell 0 s")
  from spec_drain_cell_inv[OF 0 r] r show ?case by simp
next
  case (Suc i)
  obtain s' stop where r: "spec_drain_cell (Suc i) s = (s', stop)"
    by (cases "spec_drain_cell (Suc i) s")
  note c = spec_drain_cell_inv[OF Suc.prems r]
  show ?case
  proof (cases stop)
    case True then show ?thesis using c r by simp
  next
    case False
    from Suc.IH[of s'] c have "spec_inv (spec_drain i s') \<and> s_cur (spec_drain i s') \<le> s_cur s"
      by auto
    then show ?thesis using False r by simp
  qed
qed

lemma try_hard_alloc_unfold:
  "Alloc_try_hard_alloc k n a =
     do { a1 \<leftarrow> try_hard_loop (cell_idx (a_cur_bit a)) a; Alloc_alloc k n a1 }"
  by (simp add: Alloc_try_hard_alloc_def Alloc_alloc_def cell_idx_def)

lemma n_cells_le: "n_cells k \<le> 32"
  by (cases k) (simp_all add: n_cells_val)

lemma try_hard_scan_refines:
  assumes sh: "Alloc_shape k a"
  shows "\<exists>a1. try_hard_loop (cell_idx (a_cur_bit a)) a = Some a1 \<and>
           abs_of a1 = spec_scan (abs_of a) \<and>
           length (a_bs a1) = n_cells k \<and> length (a_xbs a1) = n_cells k \<and>
           a_p a1 = a_p a \<and> a_parent a1 = a_parent a \<and> a_ta a1 = a_ta a"
proof -
  note s = Alloc_shapeD[OF sh]
  have i: "cell_idx (a_cur_bit a) < n_cells k"
    using s(4) by (simp add: cell_idx_div div_less_iff_less_mult mult.commute)
  from try_hard_loop_refines[OF s(1,2) n_cells_le i s(4)] show ?thesis
    by (auto simp: spec_scan_def abs_of_simps cell_idx_div)
qed

lemma Alloc_inv_try_hard:
  assumes inv: "Alloc_inv k a" and n: "0 < unat n" "unat n \<le> unat (MAX_bIT k)"
    and res: "Alloc_try_hard_alloc k n a = Some (a', p)"
  shows "Alloc_inv k a'"
proof -
  from inv have sh: "Alloc_shape k a" and si: "spec_inv (abs_of a)"
    by (simp_all add: Alloc_inv_spec_inv)
  from try_hard_scan_refines[OF sh] obtain a1 where
    a1: "try_hard_loop (cell_idx (a_cur_bit a)) a = Some a1" "abs_of a1 = spec_scan (abs_of a)"
        "length (a_bs a1) = n_cells k" "length (a_xbs a1) = n_cells k" by blast
  from spec_drain_inv[OF si, of "s_cur (abs_of a) div 64"]
  have "spec_inv (abs_of a1)" "s_cur (abs_of a1) \<le> s_cur (abs_of a)"
    by (simp_all add: a1(2) spec_scan_def)
  then have "Alloc_inv k a1" using a1(3,4) Alloc_shapeD(3)[OF sh]
    by (simp add: Alloc_inv_spec_inv Alloc_shape_def abs_of_simps word_le_nat_alt)
  moreover have "Alloc_alloc k n a1 = Some (a', p)"
    using res a1(1) by (simp add: try_hard_alloc_unfold)
  ultimately show ?thesis using Alloc_inv_alloc n by blast
qed

section \<open>The cursor in every reachable state\<close>

lemma fresh_inv: "fresh k a \<Longrightarrow> Alloc_inv k a"
  by (simp add: fresh_def Alloc_inv_def Alloc_shape_def bit_at_def)

lemma legal_n: "0 < n \<and> n \<le> MAX_bIT k \<Longrightarrow> 0 < unat n \<and> unat n \<le> unat (MAX_bIT k)"
  by (simp add: word_le_nat_alt word_less_nat_alt)

lemma step_inv:
  assumes inv: "Alloc_inv k a" and lg: "legal k a x" and st: "step k x a = Some a'"
  shows "Alloc_inv k a'"
proof (cases x)
  case (Alloc n)
  with st obtain p where "Alloc_alloc k n a = Some (a', p)" by auto
  then show ?thesis using Alloc_inv_alloc[OF inv] legal_n[of n k] lg Alloc by auto
next
  case (TryHardAlloc n)
  with st obtain p where "Alloc_try_hard_alloc k n a = Some (a', p)" by auto
  then show ?thesis using Alloc_inv_try_hard[OF inv] legal_n[of n k] lg TryHardAlloc by auto
next
  case (Free p)
  with st obtain b where "Alloc_free k p a = Some (a', b)" by auto
  then show ?thesis using Alloc_inv_free[OF inv] lg Free by auto
next
  case (XFree p)
  then show ?thesis using Alloc_inv_xfree[OF inv] lg st by auto
next
  case (Realloc p o' n)
  with lg have "inside k a p" "0 < unat o'" "unat o' \<le> unat n" "unat n \<le> unat (MAX_bIT k)"
    by (auto simp: live_def word_le_nat_alt word_less_nat_alt)
  from Alloc_inv_realloc[OF inv this] st Realloc show ?thesis by auto
qed

text \<open>
  Claim C2, as amended. In every state an allocator reaches from its construction by
  legal calls of \<^verbatim>\<open>alloc\<close>, \<^verbatim>\<open>try_hard_alloc\<close>, \<^verbatim>\<open>free\<close>, \<^verbatim>\<open>xfree\<close> and \<^verbatim>\<open>realloc\<close>, the
  cursor is strictly greater than the index of every set bit of \<open>bs\<close>, and it is 0 when
  \<open>bs\<close> has no set bit.
\<close>

theorem reachable_cursor_above_bits:
  assumes "reachable k a"
  shows "(\<forall>j. bit_at (a_bs a) j \<longrightarrow> j < unat (a_cur_bit a)) \<and>
         ((\<forall>j. \<not> bit_at (a_bs a) j) \<longrightarrow> a_cur_bit a = 0)"
proof -
  from assms have "Alloc_inv k a"
  proof (induction rule: reachable.induct)
    case (reachable_fresh a)
    then show ?case by (rule fresh_inv)
  next
    case (reachable_step a x a')
    then show ?case using step_inv by blast
  qed
  then show ?thesis by (simp add: Alloc_inv_def)
qed

section \<open>The slow path, realloc, and successive allocations\<close>

text \<open>
  Claim C3. On an allocator of the constructed shape, the loop of \<^verbatim>\<open>try_hard_alloc\<close>,
  started at cell \<open>cur_bit / W\<close>, returns, and the state it leaves is the one the
  specification describes (\<open>spec_scan\<close>: for each cell from \<open>cur_bit / W\<close> down to 0 with
  a non-zero snapshot \<open>x\<close>, clear the bits of \<open>x\<close> from that cell of \<open>xbs\<close> and from
  \<open>bs\<close>; with \<open>lsb\<close> the lowest bit of \<open>x\<close> and \<open>r = bs.rfind(cur_bit)\<close> after the
  clear, stop if \<open>r \<ge> lsb\<close>, else set \<open>cur_bit\<close> to \<open>lsb\<close> when \<open>r \<ge> 0\<close> and to 0
  otherwise, stopping at 0); the other fields are unchanged, and the result of
  \<^verbatim>\<open>try_hard_alloc(n)\<close> is the result of a normal \<^verbatim>\<open>alloc(n)\<close> on that state.
\<close>

theorem try_hard_alloc_scan_then_alloc:
  assumes "Alloc_shape k a"
  shows "\<exists>a1. try_hard_loop (cell_idx (a_cur_bit a)) a = Some a1 \<and>
           abs_of a1 = spec_scan (abs_of a) \<and>
           length (a_bs a1) = length (a_bs a) \<and> length (a_xbs a1) = length (a_xbs a) \<and>
           a_p a1 = a_p a \<and> a_parent a1 = a_parent a \<and> a_ta a1 = a_ta a \<and>
           Alloc_try_hard_alloc k n a = Alloc_alloc k n a1"
proof -
  from try_hard_scan_refines[OF assms] obtain a1 where
    a1: "try_hard_loop (cell_idx (a_cur_bit a)) a = Some a1" "abs_of a1 = spec_scan (abs_of a)"
      "length (a_bs a1) = n_cells k" "length (a_xbs a1) = n_cells k"
      "a_p a1 = a_p a" "a_parent a1 = a_parent a" "a_ta a1 = a_ta a" by blast
  have "Alloc_try_hard_alloc k n a = Alloc_alloc k n a1"
    by (simp add: try_hard_alloc_unfold a1(1))
  then show ?thesis using a1 Alloc_shapeD(1,2)[OF assms] by auto
qed

text \<open>
  Claim C5. For a pointer \<open>p\<close> into the payload, with \<open>i = (p - base) / slot_size\<close>:
  \<^verbatim>\<open>realloc(p, o, n)\<close> returns \<open>p\<close> after setting \<open>cur_bit = i + n\<close> exactly when
  \<open>cur_bit = i + o\<close> and \<open>i + n \<le> MAX_bIT\<close>; in every other case it returns nil and the
  allocator (cursor and both bitmaps) is unchanged. The sums are \<^verbatim>\<open>uint32\<close> sums; for
  \<open>o\<close> and \<open>n\<close> below \<open>2^31\<close> they do not wrap and the condition is the one on natural
  numbers.
\<close>

theorem Alloc_realloc_spec:
  assumes "inside k a p"
  shows "Alloc_realloc k p o' n a =
           (if a_cur_bit a = word_of_nat (slot_of k a p) + o' \<and>
               word_of_nat (slot_of k a p) + n \<le> MAX_bIT k
            then (a\<lparr>a_cur_bit := word_of_nat (slot_of k a p) + n\<rparr>, p)
            else (a, NULL)) \<and>
         (unat o' < 2 ^ 31 \<and> unat n < 2 ^ 31 \<longrightarrow>
            (a_cur_bit a = word_of_nat (slot_of k a p) + o' \<and>
               word_of_nat (slot_of k a p) + n \<le> MAX_bIT k
             \<longleftrightarrow> unat (a_cur_bit a) = slot_of k a p + unat o' \<and>
                 slot_of k a p + unat n \<le> unat (MAX_bIT k)))"
proof (intro conjI impI)
  show "Alloc_realloc k p o' n a =
           (if a_cur_bit a = word_of_nat (slot_of k a p) + o' \<and>
               word_of_nat (slot_of k a p) + n \<le> MAX_bIT k
            then (a\<lparr>a_cur_bit := word_of_nat (slot_of k a p) + n\<rparr>, p)
            else (a, NULL))"
    by (rule Alloc_realloc_unfold[OF assms])
next
  let ?i = "word_of_nat (slot_of k a p) :: uint32"
  assume b: "unat o' < 2 ^ 31 \<and> unat n < 2 ^ 31"
  have u: "unat ?i = slot_of k a p" by (rule word_of_nat_slot_unat[OF assms])
  have "unat ?i < 2012" using inside_slot_lt[OF assms] MAX_bIT_le[of k] u by simp
  then have "unat ?i + unat o' < 2 ^ 32" "unat ?i + unat n < 2 ^ 32" using b by simp_all
  note wo = word_add_le_no_wrap[OF this(1)] and wn = word_add_le_no_wrap[OF this(2)]
  have "a_cur_bit a = ?i + o' \<longleftrightarrow> unat (a_cur_bit a) = unat (?i + o')"
    by (metis unsigned_word_eqI)
  then show "(a_cur_bit a = ?i + o' \<and> ?i + n \<le> MAX_bIT k)
     \<longleftrightarrow> (unat (a_cur_bit a) = slot_of k a p + unat o' \<and>
          slot_of k a p + unat n \<le> unat (MAX_bIT k))"
    using wo(2) wn(1) u by simp
qed

lemma alloc_seq_ptrs:
  assumes "Alloc_shape k a" "region_ok k a"
    and "\<forall>u\<in>set us. 0 < unat u \<and> unat u \<le> unat (MAX_bIT k)"
    and "alloc_seq k us a = Some (a', ps)" "NULL \<notin> set ps"
  shows "length ps = length us \<and>
         unat (a_cur_bit a) + sum_list (map unat us) \<le> unat (MAX_bIT k) \<and>
         (\<forall>i < length us. ps ! i =
             a_p a + word_of_nat ((unat (a_cur_bit a) + sum_list (map unat (take i us))) * slot_size k))"
  using assms
proof (induction us arbitrary: a ps)
  case Nil
  then show ?case using Alloc_shapeD(3)[of k a] by auto
next
  case (Cons u us)
  from Cons.prems(4) obtain a1 p ps' where
    al: "Alloc_alloc k u a = Some (a1, p)" and rest: "alloc_seq k us a1 = Some (a', ps')"
    and ps: "ps = p # ps'"
    by (auto simp: bind_eq_Some_conv)
  note s = Alloc_shapeD[OF Cons.prems(1)]
  from Cons.prems(3) have u: "0 < unat u" "unat u \<le> unat (MAX_bIT k)" by auto
  have nw: "unat (a_cur_bit a) + unat u < 2 ^ 32" using s(3) u(2) MAX_bIT_le[of k] by simp
  have pn: "p \<noteq> NULL" using Cons.prems(5) ps by auto
  have fit: "unat (a_cur_bit a) + unat u \<le> unat (MAX_bIT k)"
  proof (rule ccontr)
    assume "\<not> ?thesis"
    then have "Alloc_alloc k u a = Some (a, NULL)"
      using Alloc_alloc_full[OF Cons.prems(1) nw] by simp
    with al pn show False by simp
  qed
  from Alloc_alloc_ok[OF Cons.prems(1) fit] al obtain bs' where
    a1: "a1 = a\<lparr>a_bs := bs', a_cur_bit := a_cur_bit a + u\<rparr>"
    and p: "p = a_p a + word_of_nat (unat (a_cur_bit a) * slot_size k)"
    and bs': "length bs' = length (a_bs a)"
    and cu: "unat (a_cur_bit a + u) = unat (a_cur_bit a) + unat u" by auto
  have sh1: "Alloc_shape k a1" using Cons.prems(1) bs' fit cu
    by (simp add: a1 Alloc_shape_def word_le_nat_alt)
  have r1: "region_ok k a1" using Cons.prems(2) by (simp add: a1 region_ok_def)
  have us: "\<forall>u\<in>set us. 0 < unat u \<and> unat u \<le> unat (MAX_bIT k)" using Cons.prems(3) by simp
  have nn: "NULL \<notin> set ps'" using Cons.prems(5) ps by simp
  from Cons.IH[OF sh1 r1 us rest nn] have ih:
    "length ps' = length us"
    "unat (a_cur_bit a1) + sum_list (map unat us) \<le> unat (MAX_bIT k)"
    "\<forall>i < length us. ps' ! i =
        a_p a1 + word_of_nat ((unat (a_cur_bit a1) + sum_list (map unat (take i us))) * slot_size k)"
    by auto
  have c1: "unat (a_cur_bit a1) = unat (a_cur_bit a) + unat u" by (simp add: a1 cu)
  have "ps ! i = a_p a + word_of_nat ((unat (a_cur_bit a) + sum_list (map unat (take i (u # us)))) * slot_size k)"
    if "i < length (u # us)" for i
  proof (cases i)
    case 0
    then show ?thesis by (simp add: ps p)
  next
    case (Suc j)
    then have j: "j < length us" using that by simp
    have e: "unat (a_cur_bit a1) + sum_list (map unat (take j us)) =
             unat (a_cur_bit a) + sum_list (map unat (take i (u # us)))"
      by (simp add: Suc c1)
    have ap: "a_p a1 = a_p a" by (simp add: a1)
    from ih(3) j have "ps' ! j =
        a_p a1 + word_of_nat ((unat (a_cur_bit a1) + sum_list (map unat (take j us))) * slot_size k)"
      by blast
    then have "ps' ! j =
        a_p a + word_of_nat ((unat (a_cur_bit a) + sum_list (map unat (take i (u # us)))) * slot_size k)"
      by (simp only: e ap)
    moreover have "ps ! i = ps' ! j" by (simp add: ps Suc)
    ultimately show ?thesis by (simp only:)
  qed
  then show ?case using ih(1,2) by (simp add: ps c1 add.assoc)
qed

text \<open>
  Claim C9. On one allocator whose payload is real memory, for successive successful
  calls of \<^verbatim>\<open>alloc\<close> with unit counts \<open>u\<^sub>1, u\<^sub>2, \<dots>\<close> (each at least one unit and at most
  \<^verbatim>\<open>MAX_bIT\<close> units, as every call in \<^verbatim>\<open>ThreadAlloc\<close> is) and nothing in between, each
  returned pointer is the previous one plus \<open>u\<^sub>k * slot_size\<close>, and so the pointers are
  strictly increasing.
\<close>

theorem alloc_seq_increasing:
  assumes sh: "Alloc_shape k a" and reg: "region_ok k a"
    and us: "\<forall>u\<in>set us. 0 < u \<and> u \<le> MAX_bIT k"
    and run: "alloc_seq k us a = Some (a', ps)" and ok: "NULL \<notin> set ps"
  shows "\<forall>i. Suc i < length ps \<longrightarrow>
           ps ! Suc i = ps ! i + word_of_nat (unat (us ! i) * slot_size k) \<and> ps ! i < ps ! Suc i"
proof (intro allI impI)
  fix i assume i: "Suc i < length ps"
  have us': "\<forall>u\<in>set us. 0 < unat u \<and> unat u \<le> unat (MAX_bIT k)"
    using us legal_n by blast
  from alloc_seq_ptrs[OF sh reg us' run ok] have
    len: "length ps = length us"
    and tot: "unat (a_cur_bit a) + sum_list (map unat us) \<le> unat (MAX_bIT k)"
    and pt: "\<And>i. i < length us \<Longrightarrow> ps ! i =
        a_p a + word_of_nat ((unat (a_cur_bit a) + sum_list (map unat (take i us))) * slot_size k)"
    by auto
  define X where "X j = unat (a_cur_bit a) + sum_list (map unat (take j us))" for j
  have i': "i < length us" "Suc i < length us" using i len by simp_all
  have tk: "take (Suc i) us = take i us @ [us ! i]" using i'(1) by (simp add: take_Suc_conv_app_nth)
  have XS: "X (Suc i) = X i + unat (us ! i)" by (simp add: X_def tk)
  have "sum_list (map unat (take (Suc i) us)) \<le> sum_list (map unat us)"
  proof -
    have "sum_list (map unat us) = sum_list (map unat (take (Suc i) us)) + sum_list (map unat (drop (Suc i) us))"
      by (metis append_take_drop_id map_append sum_list_append)
    then show ?thesis by simp
  qed
  then have Xle: "X (Suc i) \<le> unat (MAX_bIT k)" using tot by (simp add: X_def)
  have pos: "0 < unat (us ! i)" using us' i'(1) by (meson nth_mem)
  have ss: "0 < slot_size k" by (simp add: slot_size_def)
  have bound: "unat (a_p a) + X (Suc i) * slot_size k < 2 ^ 64"
  proof -
    have "X (Suc i) * slot_size k \<le> unat (MAX_bIT k) * slot_size k"
      by (rule mult_le_mono1[OF Xle])
    moreover have "unat (a_p a) + unat (MAX_bIT k) * slot_size k < 2 ^ 64"
      using reg by (simp add: region_ok_def)
    ultimately show ?thesis by linarith
  qed
  have un: "unat (a_p a + word_of_nat (X j * slot_size k)) = unat (a_p a) + X j * slot_size k"
    if "X j \<le> X (Suc i)" for j
  proof -
    have le: "X j * slot_size k \<le> X (Suc i) * slot_size k" by (rule mult_le_mono1[OF that])
    then have "X j * slot_size k < 2 ^ 64" using bound by linarith
    then have "unat (word_of_nat (X j * slot_size k) :: ptr) = X j * slot_size k"
      by (simp only: unat_of_nat) simp
    moreover have "unat (a_p a) + X j * slot_size k < 2 ^ 64" using bound le by linarith
    ultimately show ?thesis by (simp add: unat_add_lem[THEN iffD1])
  qed
  have p0: "ps ! i = a_p a + word_of_nat (X i * slot_size k)" using pt[OF i'(1)] by (simp add: X_def)
  have p1: "ps ! Suc i = a_p a + word_of_nat (X (Suc i) * slot_size k)"
    using pt[OF i'(2)] by (simp add: X_def)
  have eq: "ps ! Suc i = ps ! i + word_of_nat (unat (us ! i) * slot_size k)"
    by (simp add: p0 p1 XS add_mult_distrib)
  have "unat (ps ! i) < unat (ps ! Suc i)"
    using un[of i] un[of "Suc i"] XS pos ss by (simp add: p0 p1)
  then show "ps ! Suc i = ps ! i + word_of_nat (unat (us ! i) * slot_size k) \<and> ps ! i < ps ! Suc i"
    using eq by (simp add: word_less_nat_alt)
qed

section \<open>Carving a unit from a block\<close>

lemma find_lsb_not:
  assumes "\<exists>j<64. \<not> bit b j"
  shows "unat (find_lsb (NOT b)) = lowest_clear b" "lowest_clear b < 64" "\<not> bit b (lowest_clear b)"
proof -
  from assms obtain j where j: "j < 64" "\<not> bit b j" by blast
  then have "bit (NOT b) j" by (simp add: bit_not_iff)
  then have nz: "NOT b \<noteq> 0" by auto
  note p = find_lsb_props[OF nz]
  let ?l = "unat (find_lsb (NOT b))"
  have l: "\<not> bit b ?l" using p(2) by (simp add: bit_not_iff)
  have least: "?l \<le> m" if "\<not> bit b m" for m
  proof (cases "m < 64")
    case True
    then have "bit (NOT b) m" using that by (simp add: bit_not_iff)
    then show ?thesis using p(3)[of m] by (auto simp: not_less[symmetric])
  next
    case False then show ?thesis using p(1) by simp
  qed
  show e: "?l = lowest_clear b" unfolding lowest_clear_def
    by (rule sym, rule Least_equality) (use l least in auto)
  show "lowest_clear b < 64" using p(1) e by simp
  show "\<not> bit b (lowest_clear b)" using l e by simp
qed

lemma find_lsb_not_full:
  assumes "\<forall>j<63. bit b j"
  shows "\<not> find_lsb (NOT b) < R"
proof (cases "bit b 63")
  case True
  have "NOT b = 0"
  proof (rule bit_word_eqI)
    fix n assume "n < LENGTH(64)"
    then have "bit b n" using assms True by (cases "n = 63") auto
    then show "bit (NOT b) n = bit (0 :: size_t) n" by (simp add: bit_not_iff)
  qed
  then show ?thesis
    by (simp add: find_lsb_zero R_eq word_less_nat_alt unsigned_minus_1_eq_mask mask_eq_exp_minus_1)
next
  case False
  then have ex: "\<exists>j<64. \<not> bit b j" by (intro exI[of _ 63]) simp
  have "lowest_clear b = 63"
    unfolding lowest_clear_def
  proof (rule Least_equality)
    show "\<not> bit b 63" by (rule False)
    fix y assume "\<not> bit b y" then show "63 \<le> y" using assms by (meson not_less)
  qed
  then show ?thesis using find_lsb_not(1)[OF ex] by (simp add: R_eq word_less_nat_alt)
qed

lemma find_lsb_not_lt:
  assumes "\<exists>j<63. \<not> bit b j"
  shows "find_lsb (NOT b) < R" "lowest_clear b < 63"
proof -
  from assms obtain j where j: "j < 63" "\<not> bit b j" by blast
  from j have "j < 64" by simp
  with j(2) have ex: "\<exists>j<64. \<not> bit b j" by blast
  have "lowest_clear b \<le> j" unfolding lowest_clear_def using j(2) by (rule Least_le)
  then show lc: "lowest_clear b < 63" using j(1) by simp
  then show "find_lsb (NOT b) < R" using find_lsb_not(1)[OF ex] by (simp add: R_eq word_less_nat_alt)
qed

lemma child_offset:
  assumes "unat i < 64" "n \<le> 21"
  shows "(push_bit n (ucast (i :: uint32)) :: ptr) = word_of_nat (unat i * 2 ^ n)"
proof -
  have "(ucast i :: ptr) = word_of_nat (unat i)" by simp
  then show ?thesis by (simp add: push_bit_eq_mult)
qed

text \<open>
  Claim C7. \<^verbatim>\<open>HugeBlock::alloc\<close> (child unit \<open>2^21\<close> bytes) and \<^verbatim>\<open>LargeBlock::alloc\<close> (child unit
  \<open>2^15\<close> bytes) take the lowest clear bit \<open>i\<close> of the occupancy bitmap; when one of the 63
  bits \<open>0..62\<close> is clear (\<open>i < R = 63\<close>) they set bit \<open>i\<close> and return
  \<open>p + i * child_unit_size\<close>, otherwise they return nil and leave the block unchanged.
\<close>

theorem Block_alloc_lowest_clear_bit:
  "R = 63 \<and> g_lb_bits = 21 \<and> g_sb_bits = 15 \<and>
   HugeBlock_alloc hb =
     (if \<exists>j<63. \<not> bit (hb_bits hb) j
      then (hb\<lparr>hb_bits := set_bit (lowest_clear (hb_bits hb)) (hb_bits hb)\<rparr>,
            hb_p hb + word_of_nat (lowest_clear (hb_bits hb) * 2 ^ 21))
      else (hb, NULL)) \<and>
   LargeBlock_alloc lb =
     (if \<exists>j<63. \<not> bit (lb_bits lb) j
      then (lb\<lparr>lb_bits := set_bit (lowest_clear (lb_bits lb)) (lb_bits lb)\<rparr>,
            lb_p lb + word_of_nat (lowest_clear (lb_bits lb) * 2 ^ 15))
      else (lb, NULL))"
proof (intro conjI)
  show "R = 63" by (rule R_eq)
  show lbb: "g_lb_bits = 21" by (simp add: g_lb_bits_def g_sb_bits_def B_def)
  show sbb: "g_sb_bits = 15" by (simp add: g_sb_bits_def)
  have gen: "(let i = find_lsb (NOT b) in
               if i < R then (f (b OR push_bit (unat i) C), q + push_bit n (ucast i)) else (z, NULL)) =
             (if \<exists>j<63. \<not> bit b j
              then (f (set_bit (lowest_clear b) b), q + word_of_nat (lowest_clear b * 2 ^ n))
              else (z, NULL))"
    if n: "n \<le> 21" for b :: size_t and f :: "size_t \<Rightarrow> 'x" and z :: 'x and q :: ptr and n
  proof (cases "\<exists>j<63. \<not> bit b j")
    case True
    then obtain j where j: "j < 63" "\<not> bit b j" by blast
    then have "j < 64" by simp
    with j(2) have ex: "\<exists>j<64. \<not> bit b j" by blast
    note a = find_lsb_not[OF ex] and l = find_lsb_not_lt[OF True]
    have "unat (find_lsb (NOT b)) < 64" using a by simp
    note o = child_offset[OF this n]
    show ?thesis using True l(1)
      by (simp only: Let_def if_True o a(1)) (simp add: set_bit_eq_or C_def)
  next
    case False
    then have "\<forall>j<63. bit b j" by blast
    from find_lsb_not_full[OF this] have nl: "\<not> find_lsb (NOT b) < R" .
    show ?thesis by (simp only: Let_def if_not_P[OF False] if_not_P[OF nl])
  qed
  show "HugeBlock_alloc hb =
     (if \<exists>j<63. \<not> bit (hb_bits hb) j
      then (hb\<lparr>hb_bits := set_bit (lowest_clear (hb_bits hb)) (hb_bits hb)\<rparr>,
            hb_p hb + word_of_nat (lowest_clear (hb_bits hb) * 2 ^ 21))
      else (hb, NULL))"
    unfolding HugeBlock_alloc_def lbb
    using gen[of 21 "hb_bits hb" "\<lambda>v. hb\<lparr>hb_bits := v\<rparr>" "hb_p hb" hb] by simp
  show "LargeBlock_alloc lb =
     (if \<exists>j<63. \<not> bit (lb_bits lb) j
      then (lb\<lparr>lb_bits := set_bit (lowest_clear (lb_bits lb)) (lb_bits lb)\<rparr>,
            lb_p lb + word_of_nat (lowest_clear (lb_bits lb) * 2 ^ 15))
      else (lb, NULL))"
    unfolding LargeBlock_alloc_def sbb
    using gen[of 15 "lb_bits lb" "\<lambda>v. lb\<lparr>lb_bits := v\<rparr>" "lb_p lb" lb] by simp
qed

section \<open>Requests of at most 16 bytes\<close>

lemma small_units_le16: "n \<le> 16 \<Longrightarrow> small_units n = 1"
  by (simp add: small_units_def not_less[symmetric])

lemma le16_le2048: "(n :: size_t) \<le> 16 \<Longrightarrow> n \<le> 2048"
  by (simp add: word_le_nat_alt)

lemma sa_alloc_at_fast:
  assumes sh: "Alloc_shape Small (sas st sa)"
    and fit: "unat (a_cur_bit (sas st sa)) + unat u \<le> unat (MAX_bIT Small)"
  shows "\<exists>bs'. sa_alloc_at sa u st =
            Some (a_p (sas st sa) + word_of_nat (unat (a_cur_bit (sas st sa)) * 16),
                  st\<lparr>sas := (sas st)(sa := (sas st sa)\<lparr>a_bs := bs',
                          a_cur_bit := a_cur_bit (sas st sa) + u\<rparr>)\<rparr>) \<and>
          length bs' = length (a_bs (sas st sa)) \<and>
          (\<forall>j. bit_at bs' j \<longleftrightarrow> bit_at (a_bs (sas st sa)) j \<or> j = unat (a_cur_bit (sas st sa)))"
proof -
  from Alloc_alloc_ok[OF sh fit] obtain bs' where
    "Alloc_alloc Small u (sas st sa) =
            Some ((sas st sa)\<lparr>a_bs := bs', a_cur_bit := a_cur_bit (sas st sa) + u\<rparr>,
                  a_p (sas st sa) + word_of_nat (unat (a_cur_bit (sas st sa)) * slot_size Small))"
    "length bs' = length (a_bs (sas st sa))"
    "\<forall>j. bit_at bs' j \<longleftrightarrow> bit_at (a_bs (sas st sa)) j \<or> j = unat (a_cur_bit (sas st sa))"
    by blast
  then show ?thesis by (auto simp: sa_alloc_at_def slot_size_val)
qed

lemma ptr_nonzero:
  assumes "region_ok k a" "c \<le> unat (MAX_bIT k)"
  shows "a_p a + word_of_nat (c * slot_size k) \<noteq> NULL"
proof -
  have le: "c * slot_size k \<le> unat (MAX_bIT k) * slot_size k" by (rule mult_le_mono1[OF assms(2)])
  have b: "unat (a_p a) + unat (MAX_bIT k) * slot_size k < 2 ^ 64" and nz: "a_p a \<noteq> 0"
    using assms(1) by (simp_all add: region_ok_def NULL_def)
  have "c * slot_size k < 2 ^ 64" using le b by linarith
  then have "unat (word_of_nat (c * slot_size k) :: ptr) = c * slot_size k"
    by (simp only: unat_of_nat) simp
  moreover have "unat (a_p a) + c * slot_size k < 2 ^ 64" using le b by linarith
  ultimately have "unat (a_p a + word_of_nat (c * slot_size k)) = unat (a_p a) + c * slot_size k"
    by (simp add: unat_add_lem[THEN iffD1])
  moreover have "0 < unat (a_p a)" using nz by (simp add: unat_gt_0)
  ultimately have "unat (a_p a + word_of_nat (c * slot_size k)) \<noteq> 0" by simp
  then show ?thesis unfolding NULL_def by (metis unat_0)
qed

text \<open>
  Claim C10. For every \<open>n \<le> 16\<close>, and so for \<open>n = 0\<close>, \<^verbatim>\<open>ThreadAlloc::alloc(n)\<close> takes the
  small tier with a unit count of 1: its result and the state it leaves are those of
  \<^verbatim>\<open>alloc(16)\<close>, whatever the state. When the current \<^verbatim>\<open>SmallAlloc\<close> of the thread has a free
  slot, the call sets bit \<open>cur_bit\<close> of its \<open>bs\<close>, advances \<open>cur_bit\<close> by one, and returns
  the non-nil pointer \<open>base + cur_bit * 16\<close>.
\<close>

theorem alloc_up_to_16_is_one_unit:
  assumes "n \<le> 16"
  shows "small_units n = 1 \<and>
         ThreadAlloc_alloc this n st = small_alloc this 1 st \<and>
         ThreadAlloc_alloc this n st = ThreadAlloc_alloc this 16 st \<and>
         (ta_sa (tas st this) \<noteq> NULL \<and>
          Alloc_shape Small (sas st (ta_sa (tas st this))) \<and>
          region_ok Small (sas st (ta_sa (tas st this))) \<and>
          a_cur_bit (sas st (ta_sa (tas st this))) < MAX_bIT Small \<longrightarrow>
          (\<exists>bs'. ThreadAlloc_alloc this n st =
             Some (a_p (sas st (ta_sa (tas st this))) +
                     word_of_nat (unat (a_cur_bit (sas st (ta_sa (tas st this)))) * 16),
                   st\<lparr>sas := (sas st)(ta_sa (tas st this) :=
                         (sas st (ta_sa (tas st this)))\<lparr>a_bs := bs',
                            a_cur_bit := a_cur_bit (sas st (ta_sa (tas st this))) + 1\<rparr>)\<rparr>) \<and>
             a_p (sas st (ta_sa (tas st this))) +
                     word_of_nat (unat (a_cur_bit (sas st (ta_sa (tas st this)))) * 16) \<noteq> NULL \<and>
             (\<forall>j. bit_at bs' j \<longleftrightarrow>
                bit_at (a_bs (sas st (ta_sa (tas st this)))) j \<or>
                j = unat (a_cur_bit (sas st (ta_sa (tas st this)))))))"
proof (intro conjI impI)
  show u: "small_units n = 1" by (rule small_units_le16[OF assms])
  show eq: "ThreadAlloc_alloc this n st = small_alloc this 1 st"
    using le16_le2048[OF assms] by (simp add: ThreadAlloc_alloc_def u)
  have "ThreadAlloc_alloc this 16 st = small_alloc this 1 st"
    using le16_le2048[of 16] small_units_le16[of 16] by (simp add: ThreadAlloc_alloc_def)
  then show "ThreadAlloc_alloc this n st = ThreadAlloc_alloc this 16 st" using eq by simp
next
  let ?sa = "ta_sa (tas st this)"
  let ?a = "sas st ?sa"
  assume h: "?sa \<noteq> NULL \<and> Alloc_shape Small ?a \<and> region_ok Small ?a \<and> a_cur_bit ?a < MAX_bIT Small"
  then have lt: "unat (a_cur_bit ?a) < unat (MAX_bIT Small)" by (simp add: word_less_nat_alt)
  then have fit: "unat (a_cur_bit ?a) + unat (1 :: uint32) \<le> unat (MAX_bIT Small)" by simp
  from sa_alloc_at_fast[OF _ fit] h obtain bs' where
    r: "sa_alloc_at ?sa 1 st =
            Some (a_p ?a + word_of_nat (unat (a_cur_bit ?a) * 16),
                  st\<lparr>sas := (sas st)(?sa := ?a\<lparr>a_bs := bs', a_cur_bit := a_cur_bit ?a + 1\<rparr>)\<rparr>)"
    and b: "\<forall>j. bit_at bs' j \<longleftrightarrow> bit_at (a_bs ?a) j \<or> j = unat (a_cur_bit ?a)"
    by blast
  have nn: "a_p ?a + word_of_nat (unat (a_cur_bit ?a) * 16) \<noteq> NULL"
    using ptr_nonzero[of Small ?a "unat (a_cur_bit ?a)"] h lt by (simp add: slot_size_val)
  have eq: "ThreadAlloc_alloc this n st = small_alloc this 1 st"
    using le16_le2048[OF assms] small_units_le16[OF assms] by (simp add: ThreadAlloc_alloc_def)
  have "small_alloc this 1 st =
      Some (a_p ?a + word_of_nat (unat (a_cur_bit ?a) * 16),
            st\<lparr>sas := (sas st)(?sa := ?a\<lparr>a_bs := bs', a_cur_bit := a_cur_bit ?a + 1\<rparr>)\<rparr>)"
    using h r nn by (simp add: small_alloc_def)
  then show "\<exists>bs'. ThreadAlloc_alloc this n st =
             Some (a_p ?a + word_of_nat (unat (a_cur_bit ?a) * 16),
                   st\<lparr>sas := (sas st)(?sa := ?a\<lparr>a_bs := bs', a_cur_bit := a_cur_bit ?a + 1\<rparr>)\<rparr>) \<and>
             a_p ?a + word_of_nat (unat (a_cur_bit ?a) * 16) \<noteq> NULL \<and>
             (\<forall>j. bit_at bs' j \<longleftrightarrow> bit_at (a_bs ?a) j \<or> j = unat (a_cur_bit ?a))"
    using eq nn b by auto
qed

section \<open>Free by a thread that is not the owner\<close>

lemma le_2048_max: "(n :: size_t) \<le> 2048 \<Longrightarrow> n \<le> g_max_alloc_size"
  by (simp add: g_max_alloc_size_def word_le_nat_alt)

lemma Alloc_xfree_frame:
  assumes sh: "Alloc_shape k a" and ins: "inside k a p"
  shows "\<exists>xbs'. Alloc_xfree k p a = Some (a\<lparr>a_xbs := xbs'\<rparr>) \<and> length xbs' = length (a_xbs a) \<and>
            (\<forall>j. bit_at xbs' j \<longleftrightarrow> bit_at (a_xbs a) j \<or> j = slot_of k a p)"
  by (rule Alloc_xfree_ok[OF sh ins])

text \<open>
  Claim C8. A call \<^verbatim>\<open>free(p, n)\<close> with \<open>p\<close> not nil and \<open>n \<le> 128 KiB\<close>, made by a thread
  whose \<^verbatim>\<open>ThreadAlloc\<close> is not the owner written in the header that aligning \<open>p\<close> down
  finds (the \<^verbatim>\<open>SmallAlloc\<close> at the 32 KiB boundary for \<open>n \<le> 2048\<close>, the \<^verbatim>\<open>LargeAlloc\<close> at the
  2 MiB boundary otherwise), with \<open>p\<close> in the payload of that allocator, returns and
  changes one thing: bit \<open>(p - base) / slot_size\<close> of the \<open>xbs\<close> of that allocator is
  set. Its \<open>bs\<close> and \<open>cur_bit\<close>, all list links and list heads, all blocks and shards are
  unchanged, and the trace is unchanged: no mutex is taken and no call is made into the
  virtual-memory layer.
\<close>

theorem foreign_free_sets_xbs_only:
  assumes p: "p \<noteq> NULL" and n: "n \<le> g_max_alloc_size"
    and small: "n \<le> 2048 \<Longrightarrow>
        a_ta (sas st (align_down (push_bit g_sb_bits 1) p)) \<noteq> this \<and>
        Alloc_shape Small (sas st (align_down (push_bit g_sb_bits 1) p)) \<and>
        inside Small (sas st (align_down (push_bit g_sb_bits 1) p)) p"
    and large: "\<not> n \<le> 2048 \<Longrightarrow>
        a_ta (las st (align_down (push_bit g_lb_bits 1) p)) \<noteq> this \<and>
        Alloc_shape Large (las st (align_down (push_bit g_lb_bits 1) p)) \<and>
        inside Large (las st (align_down (push_bit g_lb_bits 1) p)) p"
  shows "\<exists>st' k h a xbs'.
           ThreadAlloc_free this p n st = Some st' \<and>
           (k, h, a) = (if n \<le> 2048
                        then (Small, align_down (push_bit g_sb_bits 1) p,
                              sas st (align_down (push_bit g_sb_bits 1) p))
                        else (Large, align_down (push_bit g_lb_bits 1) p,
                              las st (align_down (push_bit g_lb_bits 1) p))) \<and>
           st' = (if n \<le> 2048 then st\<lparr>sas := (sas st)(h := a\<lparr>a_xbs := xbs'\<rparr>)\<rparr>
                  else st\<lparr>las := (las st)(h := a\<lparr>a_xbs := xbs'\<rparr>)\<rparr>) \<and>
           length xbs' = length (a_xbs a) \<and>
           (\<forall>j. bit_at xbs' j \<longleftrightarrow> bit_at (a_xbs a) j \<or> j = slot_of k a p) \<and>
           trace st' = trace st \<and> ga_mtx st' = ga_mtx st \<and> ga_hb st' = ga_hb st \<and>
           links st' = links st \<and> tas st' = tas st \<and> hbs st' = hbs st \<and> lbs st' = lbs st"
proof (cases "n \<le> 2048")
  case True
  let ?h = "align_down (push_bit g_sb_bits 1) p"
  let ?a = "sas st ?h"
  from small[OF True] have o: "a_ta ?a \<noteq> this" and sh: "Alloc_shape Small ?a"
    and ins: "inside Small ?a p" by auto
  from Alloc_xfree_frame[OF sh ins] obtain xbs' where
    x: "Alloc_xfree Small p ?a = Some (?a\<lparr>a_xbs := xbs'\<rparr>)" "length xbs' = length (a_xbs ?a)"
       "\<forall>j. bit_at xbs' j \<longleftrightarrow> bit_at (a_xbs ?a) j \<or> j = slot_of Small ?a p" by blast
  have "ThreadAlloc_free this p n st = Some (st\<lparr>sas := (sas st)(?h := ?a\<lparr>a_xbs := xbs'\<rparr>)\<rparr>)"
    using p True o x(1) by (simp add: ThreadAlloc_free_def Let_def)
  then show ?thesis using True x(2,3) by auto
next
  case False
  let ?h = "align_down (push_bit g_lb_bits 1) p"
  let ?a = "las st ?h"
  from large[OF False] have o: "a_ta ?a \<noteq> this" and sh: "Alloc_shape Large ?a"
    and ins: "inside Large ?a p" by auto
  from Alloc_xfree_frame[OF sh ins] obtain xbs' where
    x: "Alloc_xfree Large p ?a = Some (?a\<lparr>a_xbs := xbs'\<rparr>)" "length xbs' = length (a_xbs ?a)"
       "\<forall>j. bit_at xbs' j \<longleftrightarrow> bit_at (a_xbs ?a) j \<or> j = slot_of Large ?a p" by blast
  have "ThreadAlloc_free this p n st = Some (st\<lparr>las := (las st)(?h := ?a\<lparr>a_xbs := xbs'\<rparr>)\<rparr>)"
    using p n False o x(1) by (simp add: ThreadAlloc_free_def Let_def)
  then show ?thesis using False x(2,3) by auto
qed

section \<open>Erasing a node from a list\<close>

lemma deref_simps: "deref p = (if p = NULL then None else Some ())"
  by (simp add: deref_def)

lemma set_next_simps:
  "dl_next (set_next a v L a) = v" "dl_prev (set_next a v L b) = dl_prev (L b)"
  "b \<noteq> a \<Longrightarrow> set_next a v L b = L b"
  by (simp_all add: set_next_def)

lemma set_prev_simps:
  "dl_prev (set_prev a v L a) = v" "dl_next (set_prev a v L b) = dl_next (L b)"
  "b \<noteq> a \<Longrightarrow> set_prev a v L b = L b"
  by (simp_all add: set_prev_def)

lemma list_path_cong:
  "(\<And>a. a \<in> set xs \<Longrightarrow> dl_next (L' a) = dl_next (L a)) \<Longrightarrow> list_path L' l xs = list_path L l xs"
  by (induction xs arbitrary: l) auto

lemma prevs_ok_cong:
  "(\<And>a. a \<in> set xs \<Longrightarrow> dl_prev (L' a) = dl_prev (L a)) \<Longrightarrow> prevs_ok L' b xs = prevs_ok L b xs"
  by (induction xs arbitrary: b) auto

lemma list_path_nonnull: "list_path L l xs \<Longrightarrow> NULL \<notin> set xs"
  by (induction xs arbitrary: l) auto

lemma list_path_hd: "list_path L l xs \<Longrightarrow> xs \<noteq> [] \<Longrightarrow> hd xs = l"
  by (cases xs) auto

lemma list_path_append:
  "list_path L l (as @ x # bs) \<Longrightarrow> list_path L x (x # bs)"
  by (induction as arbitrary: l) auto

lemma prevs_ok_append:
  "prevs_ok L b (as @ ys) \<longleftrightarrow> prevs_ok L b as \<and> prevs_ok L (if as = [] then b else last as) ys"
  by (induction as arbitrary: b) auto

lemma list_path_skip:
  assumes "as \<noteq> []" "distinct (as @ node # bs)" "list_path L l (as @ node # bs)"
  shows "list_path (set_next (last as) (dl_next (L node)) L) l (as @ bs)"
  using assms
proof (induction as arbitrary: l)
  case Nil then show ?case by simp
next
  case (Cons a as)
  show ?case
  proof (cases "as = []")
    case True
    from Cons.prems have p: "l = a" "a \<noteq> NULL" "list_path L (dl_next (L node)) bs" "a \<notin> set bs"
      using True by auto
    have "list_path (set_next a (dl_next (L node)) L) (dl_next (L node)) bs = list_path L (dl_next (L node)) bs"
      by (rule list_path_cong) (use p(4) in \<open>auto simp: set_next_def\<close>)
    then show ?thesis using True p by (simp add: set_next_simps)
  next
    case False
    from Cons.prems have p: "l = a" "a \<noteq> NULL" "list_path L (dl_next (L a)) (as @ node # bs)"
      "distinct (as @ node # bs)" "a \<notin> set as" by auto
    have "last as \<noteq> a" using False p(5) last_in_set by metis
    then have "dl_next (set_next (last as) (dl_next (L node)) L a) = dl_next (L a)"
      by (simp add: set_next_simps)
    then show ?thesis using Cons.IH[OF False p(4,3)] p(1,2) False by simp
  qed
qed

lemma list_erase_wf:
  assumes wf: "list_wf L l xs" and mem: "node \<in> set xs" and nh: "node \<noteq> l"
  shows "\<exists>L'. list_erase l node L = Some L' \<and> list_wf L' l (remove1 node xs) \<and>
           (\<forall>a. a \<notin> set xs \<longrightarrow> L' a = L a)"
proof -
  from wf have path: "list_path L l xs" and dist: "distinct xs"
    and prevs: "prevs_ok L (last xs) xs" using mem by (auto simp: list_wf_def)
  from mem obtain as bs where xs: "xs = as @ node # bs" by (meson split_list)
  have as: "as \<noteq> []"
  proof
    assume "as = []"
    then have "hd xs = node" by (simp add: xs)
    then show False using list_path_hd[OF path] nh xs by simp
  qed
  let ?pv = "last as"
  have nn: "NULL \<notin> set xs" by (rule list_path_nonnull[OF path])
  have node_nn: "node \<noteq> NULL" using nn mem by auto
  have pv_mem: "?pv \<in> set as" using as by simp
  have pv_nn: "?pv \<noteq> NULL" using nn pv_mem xs by auto
  have pv_ne: "?pv \<noteq> node" using dist pv_mem xs by auto
  have hd_l: "hd as = l" using list_path_hd[OF path] as xs by simp
  from prevs have pr: "prevs_ok L (last xs) as" "dl_prev (L node) = ?pv" "prevs_ok L node bs"
    using as by (auto simp: xs prevs_ok_append)
  have nx: "list_path L (dl_next (L node)) bs"
    using list_path_append[of L l as node bs] path xs by simp
  have nxv: "dl_next (L node) = (if bs = [] then NULL else hd bs)"
    using nx by (cases bs) auto
  let ?L1 = "set_next ?pv (dl_next (L node)) L"
  let ?x = "if bs \<noteq> [] then hd bs else l"
  have L1n: "dl_next (?L1 node) = dl_next (L node)" "dl_prev (?L1 node) = ?pv"
    using pv_ne pr(2) by (simp_all add: set_next_def)
  have x_mem: "?x \<in> set xs" using hd_l as by (auto simp: xs)
  have x_nn: "?x \<noteq> NULL" using nn x_mem by metis
  let ?L2 = "set_prev ?x ?pv ?L1"
  have g: "dl_next (set_next ?pv v L node) = dl_next (L node)" for v
    using pv_ne by (simp add: set_next_def)
  have xeq: "(if dl_next (?L1 node) \<noteq> NULL then dl_next (?L1 node) else l) = ?x"
  proof (cases "bs = []")
    case True
    then have "dl_next (L node) = NULL" using nxv by simp
    then show ?thesis using True by (simp add: g)
  next
    case False
    then have "hd bs \<in> set xs" by (simp add: xs)
    then have "hd bs \<noteq> NULL" using nn by metis
    moreover have "dl_next (L node) = hd bs" using nxv False by simp
    ultimately show ?thesis using False by (simp add: g)
  qed
  have er: "list_erase l node L = Some ?L2"
    unfolding list_erase_def Let_def pr(2) xeq L1n(2)
    using node_nn pv_nn x_nn by (simp add: deref_simps)
  have rem: "remove1 node xs = as @ bs" using dist by (simp add: xs remove1_append)
  have p1: "list_path ?L1 l (as @ bs)"
    using list_path_skip[OF as _ _] dist path by (simp add: xs)
  have p2: "list_path ?L2 l (as @ bs)"
    using p1 list_path_cong[of "as @ bs" ?L2 ?L1 l] by (simp add: set_prev_def)
  have d2: "distinct (as @ bs)" using dist by (simp add: xs)
  have prevL1: "dl_prev (?L1 a) = dl_prev (L a)" for a by (simp add: set_next_def)
  have pv2: "prevs_ok ?L2 (last (as @ bs)) (as @ bs)"
  proof (cases "bs = []")
    case True
    then have x: "?x = hd as" using hd_l by simp
    obtain a as' where asc: "as = a # as'" using as by (cases as) auto
    have "a \<notin> set as'" using dist by (simp add: xs asc)
    then have "prevs_ok ?L2 a as' = prevs_ok L a as'"
      by (intro prevs_ok_cong) (auto simp: set_prev_def set_next_def x asc)
    moreover have "prevs_ok L a as'" using pr(1) by (simp add: asc)
    moreover have "dl_prev (?L2 a) = last as" by (simp add: set_prev_def x asc)
    ultimately show ?thesis using True by (simp add: asc)
  next
    case False
    then obtain b bs' where bsc: "bs = b # bs'" by (cases bs) auto
    have x: "?x = b" by (simp add: bsc)
    have b_as: "b \<notin> set as" "b \<notin> set bs'" using dist by (auto simp: xs bsc)
    have "prevs_ok ?L2 (last (as @ bs)) as = prevs_ok L (last (as @ bs)) as"
      by (intro prevs_ok_cong) (use b_as in \<open>auto simp: set_prev_def set_next_def x\<close>)
    moreover have "last (as @ bs) = last xs" by (simp add: xs bsc)
    moreover have "prevs_ok ?L2 b bs' = prevs_ok L b bs'"
      by (intro prevs_ok_cong) (use b_as in \<open>auto simp: set_prev_def set_next_def x\<close>)
    moreover have "prevs_ok L b bs'" using pr(3) by (simp add: bsc)
    moreover have "dl_prev (?L2 b) = last as" by (simp add: set_prev_def x)
    ultimately show ?thesis using pr(1) as by (simp add: prevs_ok_append bsc)
  qed
  have wf2: "list_wf ?L2 l (remove1 node xs)"
    using p2 d2 pv2 by (simp add: list_wf_def rem)
  have fr: "\<forall>a. a \<notin> set xs \<longrightarrow> ?L2 a = L a"
    using x_mem pv_mem by (auto simp: set_prev_def set_next_def xs)
  show ?thesis using er wf2 fr by blast
qed

section \<open>Returning a Large unit to its shard\<close>

lemma index_of_diff:
  assumes "sh \<le> 32"
  shows "(ucast (signed_drop_bit sh (d :: ptr)) :: uint32) = word_of_nat (unat d div 2 ^ sh)"
proof (rule bit_word_eqI)
  fix n assume n: "n < LENGTH(32)"
  have "bit (word_of_nat (unat d div 2 ^ sh) :: uint32) n = bit (unat d div 2 ^ sh) n"
    using n by (simp add: bit_of_nat_iff)
  also have "\<dots> = bit (unat d) (sh + n)"
    by (simp add: bit_drop_bit_eq flip: drop_bit_eq_div)
  also have "\<dots> = bit d (sh + n)"
    by (simp add: bit_unsigned_iff)
  finally show "bit (ucast (signed_drop_bit sh d) :: uint32) n
      = bit (word_of_nat (unat d div 2 ^ sh) :: uint32) n"
    using n assms by (auto simp add: bit_word_ucast_iff bit_signed_drop_bit_iff)
qed

lemma g_bits_val: "g_lb_bits = 21" "g_hb_bits = 27" "g_sb_bits = 15"
  by (simp_all add: g_lb_bits_def g_hb_bits_def g_sb_bits_def B_def)

lemma HugeBlock_free_unit:
  assumes "i < 63" "p = hb_p hb + word_of_nat (i * 2 ^ 21)"
  shows "HugeBlock_free hb p =
           (hb\<lparr>hb_bits := unset_bit i (hb_bits hb)\<rparr>, unset_bit i (hb_bits hb) = 0)"
proof -
  have d: "p - hb_p hb = word_of_nat (i * 2 ^ 21)" by (simp add: assms(2))
  have "i * 2 ^ 21 < 2 ^ 64"
  proof -
    have "i * 2 ^ 21 < 63 * 2 ^ 21" using assms(1) by simp
    then show ?thesis by simp
  qed
  then have u: "unat (word_of_nat (i * 2 ^ 21) :: ptr) = i * 2 ^ 21"
    by (simp only: unat_of_nat) simp
  have "(ucast (signed_drop_bit 21 (p - hb_p hb)) :: uint32) = word_of_nat i"
    by (simp only: index_of_diff[of 21, simplified] d u) simp
  moreover have "unat (word_of_nat i :: uint32) = i" using assms(1) by (simp add: unat_of_nat)
  ultimately show ?thesis
    by (simp add: HugeBlock_free_def g_bits_val Let_def C_def unset_bit_eq_and_not)
qed

text \<open>
  Claim C6. Let \<open>hb\<close> be a block of the list of the shard that \<open>alloc_id\<close> selects, \<open>p\<close> its
  Large unit \<open>i\<close>, and let the mutex of the shard be free. Then
  \<^verbatim>\<open>GlobalAlloc::free(p, hb, alloc_id)\<close> returns, and: it decommits the \<open>2^21\<close> bytes at \<open>p\<close>,
  takes the mutex, clears bit \<open>i\<close> of the bitmap of \<open>hb\<close> while the mutex is held (the
  bitmaps are untouched before the mutex is taken and after it is given back), and
  gives the mutex back. When the bitmap of \<open>hb\<close> has become zero and \<open>hb\<close> is not the
  head of the shard, \<open>hb\<close> is erased from the list under the mutex and its \<open>2^27\<close>
  reserved bytes are released after the mutex is given back; in every other case, so
  whenever \<open>hb\<close> is the head, the list and its links are unchanged and nothing is
  released. The head of the shard is the same afterwards in both cases.
\<close>

theorem GlobalAlloc_free_spec:
  assumes wf: "list_wf (links st) (ga_hb st (shard alloc_id)) xs" and mem: "hb \<in> set xs"
    and mtx: "\<not> ga_mtx st (shard alloc_id)"
    and unit: "i < 63" "p = hb_p (hbs st hb) + word_of_nat (i * 2 ^ 21)"
  shows "\<exists>st2 st3 st' rel.
     rel = (unset_bit i (hb_bits (hbs st hb)) = 0 \<and> hb \<noteq> ga_hb st (shard alloc_id)) \<and>
     mtx_lock (shard alloc_id) (vm_decommit p (2 ^ 21) st) = Some st2 \<and>
     GlobalAlloc_free_locked p hb (shard alloc_id) st2 = Some (rel, st3) \<and>
     GlobalAlloc_free p hb alloc_id st = Some st' \<and>
     st' = (if rel then vm_free hb (2 ^ 27) (mtx_unlock (shard alloc_id) st3)
            else mtx_unlock (shard alloc_id) st3) \<and>
     ga_mtx st2 (shard alloc_id) \<and> ga_mtx st3 (shard alloc_id) \<and>
     \<not> ga_mtx st' (shard alloc_id) \<and>
     hbs st2 = hbs st \<and>
     hbs st3 = (hbs st)(hb := (hbs st hb)\<lparr>hb_bits := unset_bit i (hb_bits (hbs st hb))\<rparr>) \<and>
     hbs st' = hbs st3 \<and>
     trace st' = trace st @ [VmDecommit p (2 ^ 21), Lock (shard alloc_id), Unlock (shard alloc_id)]
                   @ (if rel then [VmFree hb (2 ^ 27)] else []) \<and>
     ga_hb st' = ga_hb st \<and>
     list_wf (links st') (ga_hb st' (shard alloc_id)) (if rel then remove1 hb xs else xs) \<and>
     (\<not> rel \<longrightarrow> links st' = links st)"
proof -
  let ?x = "shard alloc_id"
  let ?b = "unset_bit i (hb_bits (hbs st hb))"
  let ?rel = "?b = 0 \<and> hb \<noteq> ga_hb st ?x"
  define st1 where "st1 = vm_decommit p (2 ^ 21) st"
  define st2 where "st2 = log_event (Lock ?x) (st1\<lparr>ga_mtx := (ga_mtx st1)(?x := True)\<rparr>)"
  have l: "mtx_lock ?x st1 = Some st2"
    using mtx by (simp add: mtx_lock_def st2_def st1_def vm_decommit_def log_event_def)
  have s2: "hbs st2 = hbs st" "links st2 = links st" "ga_hb st2 = ga_hb st" "ga_mtx st2 ?x"
    "trace st2 = trace st @ [VmDecommit p (2 ^ 21), Lock ?x]"
    by (simp_all add: st2_def st1_def vm_decommit_def log_event_def)
  define sf where "sf = st2\<lparr>hbs := (hbs st2)(hb := (hbs st hb)\<lparr>hb_bits := ?b\<rparr>)\<rparr>"
  have f: "hb_free_at hb p st2 = (?b = 0, sf)"
    using HugeBlock_free_unit[OF unit(1), of p "hbs st hb"] unit(2)
    by (simp add: hb_free_at_def s2(1) sf_def)
  have sfp: "links sf = links st" "ga_hb sf = ga_hb st" "ga_mtx sf ?x" "trace sf = trace st2"
    "hbs sf = (hbs st)(hb := (hbs st hb)\<lparr>hb_bits := ?b\<rparr>)"
    using s2 by (simp_all add: sf_def)
  define r where "r \<longleftrightarrow> ?rel"
  have "\<exists>st3 st'.
     GlobalAlloc_free_locked p hb ?x st2 = Some (r, st3) \<and>
     GlobalAlloc_free p hb alloc_id st = Some st' \<and>
     st' = (if r then vm_free hb (2 ^ 27) (mtx_unlock ?x st3) else mtx_unlock ?x st3) \<and>
     ga_mtx st3 ?x \<and> \<not> ga_mtx st' ?x \<and>
     hbs st3 = (hbs st)(hb := (hbs st hb)\<lparr>hb_bits := ?b\<rparr>) \<and>
     hbs st' = hbs st3 \<and>
     trace st' = trace st @ [VmDecommit p (2 ^ 21), Lock ?x, Unlock ?x]
                   @ (if r then [VmFree hb (2 ^ 27)] else []) \<and>
     ga_hb st' = ga_hb st \<and>
     list_wf (links st') (ga_hb st' ?x) (if r then remove1 hb xs else xs) \<and>
     (\<not> r \<longrightarrow> links st' = links st)"
  proof (cases r)
    case True
    then have nh: "hb \<noteq> ga_hb st ?x" and z: "?b = 0" by (simp_all add: r_def)
    from list_erase_wf[OF wf mem nh] obtain L' where
      L': "list_erase (ga_hb st ?x) hb (links st) = Some L'"
          "list_wf L' (ga_hb st ?x) (remove1 hb xs)" by blast
    define st3 where "st3 = sf\<lparr>links := L'\<rparr>"
    have lk: "GlobalAlloc_free_locked p hb ?x st2 = Some (r, st3)"
      using True nh z L'(1) by (simp add: GlobalAlloc_free_locked_def f sfp st3_def)
    define st' where "st' = vm_free hb (2 ^ 27) (mtx_unlock ?x st3)"
    have fr: "GlobalAlloc_free p hb alloc_id st = Some st'"
      using l[unfolded st1_def] lk True
      by (simp add: GlobalAlloc_free_def g_bits_val st'_def)
    have p3: "ga_mtx st3 ?x" "hbs st3 = (hbs st)(hb := (hbs st hb)\<lparr>hb_bits := ?b\<rparr>)"
      using sfp by (simp_all add: st3_def)
    have p': "\<not> ga_mtx st' ?x" "hbs st' = hbs st3" "ga_hb st' = ga_hb st" "links st' = L'"
      "trace st' = trace st @ [VmDecommit p (2 ^ 21), Lock ?x, Unlock ?x] @ [VmFree hb (2 ^ 27)]"
      using sfp s2(5)
      by (simp_all add: st'_def st3_def vm_free_def mtx_unlock_def log_event_def)
    show ?thesis
      apply (rule exI[of _ st3], rule exI[of _ st'])
      using True lk fr p3 p' L'(2) by (simp add: st'_def)
  next
    case False
    then have nr: "\<not> (?b = 0 \<and> hb \<noteq> ga_hb st ?x)" by (simp add: r_def)
    have lk: "GlobalAlloc_free_locked p hb ?x st2 = Some (r, sf)"
      using False nr by (auto simp add: GlobalAlloc_free_locked_def f sfp)
    define st' where "st' = mtx_unlock ?x sf"
    have fr: "GlobalAlloc_free p hb alloc_id st = Some st'"
      using l[unfolded st1_def] lk False
      by (simp add: GlobalAlloc_free_def g_bits_val st'_def)
    have p': "\<not> ga_mtx st' ?x" "hbs st' = hbs sf" "ga_hb st' = ga_hb st" "links st' = links st"
      "trace st' = trace st @ [VmDecommit p (2 ^ 21), Lock ?x, Unlock ?x]"
      using sfp s2(5)
      by (simp_all add: st'_def mtx_unlock_def log_event_def)
    show ?thesis
      apply (rule exI[of _ sf], rule exI[of _ st'])
      using False lk fr sfp p' wf by (simp add: st'_def)
  qed
  then obtain st3 st' where
     "GlobalAlloc_free_locked p hb ?x st2 = Some (r, st3)"
     "GlobalAlloc_free p hb alloc_id st = Some st'"
     "st' = (if r then vm_free hb (2 ^ 27) (mtx_unlock ?x st3) else mtx_unlock ?x st3)"
     "ga_mtx st3 ?x" "\<not> ga_mtx st' ?x"
     "hbs st3 = (hbs st)(hb := (hbs st hb)\<lparr>hb_bits := ?b\<rparr>)"
     "hbs st' = hbs st3"
     "trace st' = trace st @ [VmDecommit p (2 ^ 21), Lock ?x, Unlock ?x]
                   @ (if r then [VmFree hb (2 ^ 27)] else [])"
     "ga_hb st' = ga_hb st"
     "list_wf (links st') (ga_hb st' ?x) (if r then remove1 hb xs else xs)"
     "\<not> r \<longrightarrow> links st' = links st" by blast
  with r_def l[unfolded st1_def] s2(1,4) show ?thesis by blast
qed

section \<open>The properties at concrete allocators\<close>

lemma alloc_seq_inv:
  assumes "Alloc_inv k a" "\<forall>u\<in>set us. 0 < unat u \<and> unat u \<le> unat (MAX_bIT k)"
    "alloc_seq k us a = Some (a', ps)"
  shows "Alloc_inv k a'"
  using assms
proof (induction us arbitrary: a ps)
  case Nil then show ?case by simp
next
  case (Cons u us)
  from Cons.prems(3) obtain a1 p ps' where
    al: "Alloc_alloc k u a = Some (a1, p)" and rest: "alloc_seq k us a1 = Some (a', ps')"
    by (auto simp: bind_eq_Some_conv)
  have "Alloc_inv k a1" using Alloc_inv_alloc[OF Cons.prems(1) _ _ al] Cons.prems(2) by simp
  then show ?case using Cons.IH rest Cons.prems(2) by auto
qed

lemma sa0_inv: "Alloc_inv Small sa0"
  unfolding sa0_def by (rule Alloc_inv_new)

lemma la0_inv: "Alloc_inv Large la0"
  unfolding la0_def by (rule Alloc_inv_new)

lemma sa3_run: "alloc_seq Small [1, 1, 1] sa0 = Some (sa3, [33344, 33360, 33376])"
  by code_simp

lemma la3_run: "alloc_seq Large [1, 1, 1] la0 = Some (la3, [2101248, 2105344, 2109440])"
  by code_simp

lemma sa3_inv: "Alloc_inv Small sa3"
  by (rule alloc_seq_inv[OF sa0_inv _ sa3_run]) (simp add: MAX_bIT_val)

lemma la3_inv: "Alloc_inv Large la3"
  by (rule alloc_seq_inv[OF la0_inv _ la3_run]) (simp add: MAX_bIT_val)

lemma la3x_run: "Alloc_xfree Large 2105344 la3 \<bind> Alloc_xfree Large 2109440 = Some la3x"
  by code_simp

text \<open>
  Claim C4 at the bitmap with cells \<open>5, 0, 8, 1\<close> and \<open>i = 200\<close>: the bound is 255 and
  the largest set bit at or below it is bit 192.
\<close>

theorem Bitset_rfind_largest_set_bit_witness:
  "unat (200 :: uint32) < 64 * length [5, 0, 8, 1 :: size_t] \<and>
   Bitset_rfind [5, 0, 8, 1] 200 = Some 192 \<and>
   (\<exists>j \<le> rfind_bound 200. bit_at [5, 0, 8, 1] j) \<and>
   Max {j. j \<le> rfind_bound 200 \<and> bit_at [5, 0, 8, 1] j} = 192"
proof -
  have h: "unat (200 :: uint32) < 64 * length [5, 0, 8, 1 :: size_t]" by simp
  have c: "Bitset_rfind [5, 0, 8, 1] 200 = Some 192" by code_simp
  from Bitset_rfind_largest_set_bit[OF h] c
  have e: "(if \<exists>j \<le> rfind_bound 200. bit_at [5, 0, 8, 1] j
        then int (Max {j. j \<le> rfind_bound 200 \<and> bit_at [5, 0, 8, 1] j}) else - 1) = 192"
    by simp
  then have ex: "\<exists>j \<le> rfind_bound 200. bit_at [5, 0, 8, 1] j" by (auto split: if_splits)
  with e have "int (Max {j. j \<le> rfind_bound 200 \<and> bit_at [5, 0, 8, 1] j}) = 192" by simp
  then have "Max {j. j \<le> rfind_bound 200 \<and> bit_at [5, 0, 8, 1] j} = 192" by linarith
  with h c ex show ?thesis by blast
qed

text \<open>
  Claim C1 at the small allocator with three one-unit objects: freeing the third one
  (slot 2) finds \<open>r = 1 < 2\<close>, moves the cursor from 3 to 2 and returns false.
\<close>

theorem Alloc_free_spec_witness:
  "Alloc_inv Small sa3 \<and> inside Small sa3 33376 \<and> bit_at (a_bs sa3) (slot_of Small sa3 33376) \<and>
   slot_of Small sa3 33376 = 2 \<and>
   Alloc_free Small 33376 sa3 = Some (sa3\<lparr>a_bs := 3 # replicate 31 0, a_cur_bit := 2\<rparr>, False) \<and>
   Bitset_rfind (3 # replicate 31 0) 3 = Some 1"
proof -
  have h1: "inside Small sa3 33376" by code_simp
  have h2: "bit_at (a_bs sa3) (slot_of Small sa3 33376)" by code_simp
  have s: "slot_of Small sa3 33376 = 2" by code_simp
  have c: "Alloc_free Small 33376 sa3 = Some (sa3\<lparr>a_bs := 3 # replicate 31 0, a_cur_bit := 2\<rparr>, False)"
    by code_simp
  from Alloc_free_spec[OF sa3_inv h1 h2] c obtain r where
    "Bitset_rfind (3 # replicate 31 0) (a_cur_bit sa3) = Some r"
    "(2 :: uint32) = (if r < int (slot_of Small sa3 33376)
               then (if 0 \<le> r then word_of_nat (slot_of Small sa3 33376) else 0)
               else a_cur_bit sa3)"
    by auto
  moreover have "Bitset_rfind (3 # replicate 31 0) 3 = Some 1" by code_simp
  ultimately show ?thesis using sa3_inv h1 h2 s c by blast
qed

lemma sa0_fresh: "fresh Small sa0"
  by (simp add: fresh_def sa0_def SmallAlloc_new_def n_cells_val)

lemma la0_fresh: "fresh Large la0"
  by (simp add: fresh_def la0_def LargeAlloc_new_def n_cells_val)

lemma la3_reachable: "reachable Large la3"
proof -
  have r0: "reachable Large la0" by (rule reachable_fresh[OF la0_fresh])
  have l: "legal Large a (Alloc 1)" for a by (simp add: MAX_bIT_word)
  have s1: "step Large (Alloc 1) la0 = Some (la0\<lparr>a_bs := 1 # replicate 7 0, a_cur_bit := 1\<rparr>)"
    by code_simp
  have s2: "step Large (Alloc 1) (la0\<lparr>a_bs := 1 # replicate 7 0, a_cur_bit := 1\<rparr>)
      = Some (la0\<lparr>a_bs := 3 # replicate 7 0, a_cur_bit := 2\<rparr>)"
    by code_simp
  have s3: "step Large (Alloc 1) (la0\<lparr>a_bs := 3 # replicate 7 0, a_cur_bit := 2\<rparr>) = Some la3"
    by code_simp
  from reachable_step[OF reachable_step[OF reachable_step[OF r0 l s1] l s2] l s3]
  show ?thesis .
qed

text \<open>
  Claim C2, as amended, at the large allocator after three one-unit allocations: it is
  reachable, bit 2 is set, and the cursor is above it.
\<close>

theorem reachable_cursor_above_bits_witness:
  "reachable Large la3 \<and> bit_at (a_bs la3) 2 \<and> 2 < unat (a_cur_bit la3)"
proof -
  have b: "bit_at (a_bs la3) 2" by code_simp
  from reachable_cursor_above_bits[OF la3_reachable] b have "2 < unat (a_cur_bit la3)" by blast
  with la3_reachable b show ?thesis by blast
qed

lemma bit_at_one: "bit_at (1 # replicate n 0) j \<longleftrightarrow> j = 0"
proof (cases "j div 64")
  case 0
  then have "j < 64" by (simp add: div_eq_0_iff)
  then show ?thesis using 0 by (auto simp: bit_at_def bit_1_iff)
next
  case (Suc m)
  then have "j \<noteq> 0" by auto
  then show ?thesis using Suc by (auto simp: bit_at_def)
qed

text \<open>
  Claim C2 as stated fails: after \<^verbatim>\<open>alloc(2)\<close> on a fresh \<^verbatim>\<open>SmallAlloc\<close> the only set bit
  of \<open>bs\<close> is bit 0 and the cursor is 2, not 1: \<^verbatim>\<open>alloc(n)\<close> sets one bit and advances the
  cursor by \<open>n\<close>.
\<close>

theorem cursor_not_one_past_highest:
  "reachable Small (sa0\<lparr>a_bs := 1 # replicate 31 0, a_cur_bit := 2\<rparr>) \<and>
   \<not> one_past_highest (sa0\<lparr>a_bs := 1 # replicate 31 0, a_cur_bit := 2\<rparr>)"
proof -
  let ?a = "sa0\<lparr>a_bs := 1 # replicate 31 0, a_cur_bit := 2\<rparr>"
  have l: "legal Small sa0 (Alloc 2)" by (simp add: MAX_bIT_word)
  have s: "step Small (Alloc 2) sa0 = Some ?a" by code_simp
  have r: "reachable Small ?a" by (rule reachable_step[OF reachable_fresh[OF sa0_fresh] l s])
  have bits: "{j. bit_at (a_bs ?a) j} = {0}" by (simp add: bit_at_one)
  have ex: "\<exists>j. bit_at (a_bs ?a) j" by (simp add: bit_at_one)
  have ne: "unat (a_cur_bit ?a) \<noteq> Suc (Max {j. bit_at (a_bs ?a) j})"
    unfolding bits by simp
  have "\<not> one_past_highest ?a"
  proof
    assume "one_past_highest ?a"
    then have "unat (a_cur_bit ?a) = Suc (Max {j. bit_at (a_bs ?a) j})"
      unfolding one_past_highest_def if_P[OF ex] .
    with ne show False by contradiction
  qed
  with r show ?thesis by blast
qed

text \<open>
  Claim C3 at the large allocator whose second and third object were freed by another
  thread: the scan clears bits 1 and 2 and moves the cursor from 3 to 1, and
  \<^verbatim>\<open>try_hard_alloc(2)\<close> then allocates slot 1.
\<close>

theorem try_hard_alloc_scan_then_alloc_witness:
  "Alloc_shape Large la3x \<and>
   try_hard_loop (cell_idx (a_cur_bit la3x)) la3x =
     Some (la3x\<lparr>a_bs := 1 # replicate 7 0, a_xbs := replicate 8 0, a_cur_bit := 1\<rparr>) \<and>
   s_cur (spec_scan (abs_of la3x)) = 1 \<and>
   Alloc_try_hard_alloc Large 2 la3x =
     Some (la3x\<lparr>a_bs := 3 # replicate 7 0, a_xbs := replicate 8 0, a_cur_bit := 3\<rparr>, 2105344)"
proof -
  have sh: "Alloc_shape Large la3x"
    by (simp add: Alloc_shape_def la3x_def n_cells_val MAX_bIT_word)
  have l: "try_hard_loop (cell_idx (a_cur_bit la3x)) la3x =
     Some (la3x\<lparr>a_bs := 1 # replicate 7 0, a_xbs := replicate 8 0, a_cur_bit := 1\<rparr>)"
    by code_simp
  have al: "Alloc_alloc Large 2 (la3x\<lparr>a_bs := 1 # replicate 7 0, a_xbs := replicate 8 0, a_cur_bit := 1\<rparr>) =
     Some (la3x\<lparr>a_bs := 3 # replicate 7 0, a_xbs := replicate 8 0, a_cur_bit := 3\<rparr>, 2105344)"
    by code_simp
  from try_hard_alloc_scan_then_alloc[OF sh, of 2] l al
  have e: "abs_of (la3x\<lparr>a_bs := 1 # replicate 7 0, a_xbs := replicate 8 0, a_cur_bit := 1\<rparr>)
          = spec_scan (abs_of la3x)"
    and t: "Alloc_try_hard_alloc Large 2 la3x =
     Some (la3x\<lparr>a_bs := 3 # replicate 7 0, a_xbs := replicate 8 0, a_cur_bit := 3\<rparr>, 2105344)"
    by auto
  have "s_cur (abs_of (la3x\<lparr>a_bs := 1 # replicate 7 0, a_xbs := replicate 8 0, a_cur_bit := 1\<rparr>)) = 1"
    by (simp add: abs_of_simps)
  with e have "s_cur (spec_scan (abs_of la3x)) = 1" by (simp only:)
  with sh l t show ?thesis by blast
qed

text \<open>
  Claim C5 at the small allocator with three one-unit objects: the third object
  (slot 2, one unit) grows in place to four units; the second one does not.
\<close>

theorem Alloc_realloc_spec_witness:
  "inside Small sa3 33376 \<and> slot_of Small sa3 33376 = 2 \<and>
   Alloc_realloc Small 33376 1 4 sa3 = (sa3\<lparr>a_cur_bit := 6\<rparr>, 33376) \<and>
   Alloc_realloc Small 33360 1 4 sa3 = (sa3, NULL)"
proof -
  have h1: "inside Small sa3 33376" by code_simp
  have h2: "inside Small sa3 33360" by code_simp
  have s1: "slot_of Small sa3 33376 = 2" by code_simp
  have s2: "slot_of Small sa3 33360 = 1" by code_simp
  have c: "a_cur_bit sa3 = 3" by (simp add: sa3_def)
  from Alloc_realloc_spec[OF h1, of 1 4]
  have "Alloc_realloc Small 33376 1 4 sa3 = (sa3\<lparr>a_cur_bit := 6\<rparr>, 33376)"
    by (simp add: s1 c MAX_bIT_word)
  moreover from Alloc_realloc_spec[OF h2, of 1 4]
  have "Alloc_realloc Small 33360 1 4 sa3 = (sa3, NULL)"
    by (simp add: s2 c MAX_bIT_word)
  ultimately show ?thesis using h1 s1 by blast
qed

text \<open>
  Claim C9 at a fresh small allocator and the unit counts 2, 1, 3: the pointers are
  \<open>0x8240\<close>, \<open>0x8260\<close> and \<open>0x8270\<close>.
\<close>

theorem alloc_seq_increasing_witness:
  "Alloc_shape Small sa0 \<and> region_ok Small sa0 \<and>
   alloc_seq Small [2, 1, 3] sa0 =
     Some (sa0\<lparr>a_bs := 13 # replicate 31 0, a_cur_bit := 6\<rparr>, [33344, 33376, 33392]) \<and>
   (33376 :: ptr) = 33344 + word_of_nat (unat (2 :: uint32) * slot_size Small) \<and>
   (33392 :: ptr) = 33376 + word_of_nat (unat (1 :: uint32) * slot_size Small) \<and>
   (33344 :: ptr) < 33376 \<and> (33376 :: ptr) < 33392"
proof -
  have sh: "Alloc_shape Small sa0" using sa0_inv by (simp add: Alloc_inv_def)
  have reg: "region_ok Small sa0"
    by (simp add: region_ok_def sa0_def SmallAlloc_new_def NULL_def MAX_bIT_val slot_size_val
          BS_BITS_word SA_SIZE_def)
  have us: "\<forall>u\<in>set [2, 1, 3 :: uint32]. 0 < u \<and> u \<le> MAX_bIT Small" by (simp add: MAX_bIT_word)
  have run: "alloc_seq Small [2, 1, 3] sa0 =
     Some (sa0\<lparr>a_bs := 13 # replicate 31 0, a_cur_bit := 6\<rparr>, [33344, 33376, 33392])"
    by code_simp
  have ok: "NULL \<notin> set [33344, 33376, 33392 :: ptr]" by (simp add: NULL_def)
  note t = alloc_seq_increasing[OF sh reg us run ok]
  have l: "Suc 0 < length [33344, 33376, 33392 :: ptr]" "Suc (Suc 0) < length [33344, 33376, 33392 :: ptr]"
    by simp_all
  have n: "[33344, 33376, 33392 :: ptr] ! 0 = 33344" "[33344, 33376, 33392 :: ptr] ! Suc 0 = 33376"
    "[33344, 33376, 33392 :: ptr] ! Suc (Suc 0) = 33392"
    "[2, 1, 3 :: uint32] ! 0 = 2" "[2, 1, 3 :: uint32] ! Suc 0 = 1"
    by simp_all
  from t[rule_format, OF l(1)] t[rule_format, OF l(2)]
  have "(33376 :: ptr) = 33344 + word_of_nat (unat (2 :: uint32) * slot_size Small) \<and> (33344 :: ptr) < 33376"
    "(33392 :: ptr) = 33376 + word_of_nat (unat (1 :: uint32) * slot_size Small) \<and> (33376 :: ptr) < 33392"
    unfolding n by blast+
  with sh reg run show ?thesis by blast
qed

section \<open>The properties at the example store\<close>

lemma sa3_shape: "Alloc_shape Small sa3"
  by (simp add: Alloc_shape_def sa3_def n_cells_val MAX_bIT_word)

lemma la3_shape: "Alloc_shape Large la3"
  by (simp add: Alloc_shape_def la3_def n_cells_val MAX_bIT_word)

lemma sa3_region: "region_ok Small sa3"
  by (simp add: region_ok_def sa3_def NULL_def MAX_bIT_val slot_size_val)

text \<open>
  Claim C10 at \<open>n = 0\<close> and thread 1 of the example store, whose current \<^verbatim>\<open>SmallAlloc\<close> has
  its cursor at 3: \<^verbatim>\<open>alloc(0)\<close> is \<^verbatim>\<open>alloc(16)\<close>, and it returns the non-nil pointer
  \<open>0x8240 + 3 * 16\<close>.
\<close>

theorem alloc_up_to_16_is_one_unit_witness:
  "(0 :: size_t) \<le> 16 \<and> small_units 0 = 1 \<and>
   ThreadAlloc_alloc 1 0 st_ex = ThreadAlloc_alloc 1 16 st_ex \<and>
   ta_sa (tas st_ex 1) = 32768 \<and> sas st_ex 32768 = sa3 \<and>
   Alloc_shape Small sa3 \<and> region_ok Small sa3 \<and> a_cur_bit sa3 < MAX_bIT Small \<and>
   (\<exists>bs'. ThreadAlloc_alloc 1 0 st_ex =
      Some (33392, st_ex\<lparr>sas := (sas st_ex)(32768 := sa3\<lparr>a_bs := bs', a_cur_bit := 4\<rparr>)\<rparr>))"
proof -
  have h: "(0 :: size_t) \<le> 16" by simp
  have t: "ta_sa (tas st_ex 1) = 32768" "sas st_ex 32768 = sa3" by (simp_all add: st_ex_def)
  have c: "a_cur_bit sa3 < MAX_bIT Small" "a_cur_bit sa3 = 3" "a_p sa3 = 33344"
    by (simp_all add: sa3_def MAX_bIT_word)
  note T = alloc_up_to_16_is_one_unit[OF h, of 1 st_ex]
  have pre: "ta_sa (tas st_ex 1) \<noteq> NULL \<and> Alloc_shape Small (sas st_ex (ta_sa (tas st_ex 1))) \<and>
          region_ok Small (sas st_ex (ta_sa (tas st_ex 1))) \<and>
          a_cur_bit (sas st_ex (ta_sa (tas st_ex 1))) < MAX_bIT Small"
    using sa3_shape sa3_region c(1) by (simp add: t NULL_def)
  from T pre obtain bs' where
    "ThreadAlloc_alloc 1 0 st_ex =
       Some (a_p (sas st_ex (ta_sa (tas st_ex 1))) +
               word_of_nat (unat (a_cur_bit (sas st_ex (ta_sa (tas st_ex 1)))) * 16),
             st_ex\<lparr>sas := (sas st_ex)(ta_sa (tas st_ex 1) :=
                   (sas st_ex (ta_sa (tas st_ex 1)))\<lparr>a_bs := bs',
                      a_cur_bit := a_cur_bit (sas st_ex (ta_sa (tas st_ex 1))) + 1\<rparr>)\<rparr>)"
    by blast
  then have "ThreadAlloc_alloc 1 0 st_ex =
      Some (33392, st_ex\<lparr>sas := (sas st_ex)(32768 := sa3\<lparr>a_bs := bs', a_cur_bit := 4\<rparr>)\<rparr>)"
    by (simp add: t c)
  with T h t sa3_shape sa3_region c(1) show ?thesis by blast
qed

text \<open>
  Claim C8 at the example store: thread 2 frees the third object of the small allocator
  and the second object of the large allocator, both owned by thread 1.
\<close>

theorem foreign_free_sets_xbs_only_witness:
  "(33376 :: ptr) \<noteq> NULL \<and> (16 :: size_t) \<le> g_max_alloc_size \<and> (16 :: size_t) \<le> 2048 \<and>
   a_ta (sas st_ex (align_down (push_bit g_sb_bits 1) 33376)) \<noteq> 2 \<and>
   Alloc_shape Small (sas st_ex (align_down (push_bit g_sb_bits 1) 33376)) \<and>
   inside Small (sas st_ex (align_down (push_bit g_sb_bits 1) 33376)) 33376 \<and>
   (\<exists>st' xbs'. ThreadAlloc_free 2 33376 16 st_ex = Some st' \<and>
      st' = st_ex\<lparr>sas := (sas st_ex)(32768 := sa3\<lparr>a_xbs := xbs'\<rparr>)\<rparr> \<and>
      bit_at xbs' 2 \<and> trace st' = trace st_ex) \<and>
   (2105344 :: ptr) \<noteq> NULL \<and> (4096 :: size_t) \<le> g_max_alloc_size \<and> \<not> (4096 :: size_t) \<le> 2048 \<and>
   a_ta (las st_ex (align_down (push_bit g_lb_bits 1) 2105344)) \<noteq> 2 \<and>
   Alloc_shape Large (las st_ex (align_down (push_bit g_lb_bits 1) 2105344)) \<and>
   inside Large (las st_ex (align_down (push_bit g_lb_bits 1) 2105344)) 2105344 \<and>
   (\<exists>st' xbs'. ThreadAlloc_free 2 2105344 4096 st_ex = Some st' \<and>
      st' = st_ex\<lparr>las := (las st_ex)(2097152 := la3\<lparr>a_xbs := xbs'\<rparr>)\<rparr> \<and>
      bit_at xbs' 1 \<and> trace st' = trace st_ex)"
proof -
  have al: "align_down (push_bit g_sb_bits 1) (33376 :: ptr) = 32768"
    "align_down (push_bit g_lb_bits 1) (2105344 :: ptr) = 2097152"
    by (simp_all add: align_down_def g_bits_val)
  have s: "sas st_ex 32768 = sa3" "las st_ex 2097152 = la3" by (simp_all add: st_ex_def)
  have p1: "(33376 :: ptr) \<noteq> NULL" "(16 :: size_t) \<le> g_max_alloc_size" "(16 :: size_t) \<le> 2048"
    by (simp_all add: NULL_def g_max_alloc_size_def)
  have o1: "a_ta (sas st_ex (align_down (push_bit g_sb_bits 1) 33376)) \<noteq> 2"
    by (simp only: al s) (simp add: sa3_def)
  have sh1: "Alloc_shape Small (sas st_ex (align_down (push_bit g_sb_bits 1) 33376))"
    using sa3_shape by (simp only: al s)
  have in1: "inside Small (sas st_ex (align_down (push_bit g_sb_bits 1) 33376)) 33376"
    by (simp only: al s) (simp add: inside_def sa3_def MAX_bIT_val slot_size_val)
  have sl1: "slot_of Small sa3 33376 = 2" by (simp add: slot_of_def sa3_def slot_size_val)
  from foreign_free_sets_xbs_only[of 33376 16 st_ex 2, OF p1(1,2)] p1(3) o1 sh1 in1
  obtain st' xbs' where
    "ThreadAlloc_free 2 33376 16 st_ex = Some st'"
    "st' = st_ex\<lparr>sas := (sas st_ex)(32768 := sa3\<lparr>a_xbs := xbs'\<rparr>)\<rparr>"
    "\<forall>j. bit_at xbs' j \<longleftrightarrow> bit_at (a_xbs sa3) j \<or> j = slot_of Small sa3 33376"
    "trace st' = trace st_ex"
    unfolding al s by auto
  then have w1: "\<exists>st' xbs'. ThreadAlloc_free 2 33376 16 st_ex = Some st' \<and>
      st' = st_ex\<lparr>sas := (sas st_ex)(32768 := sa3\<lparr>a_xbs := xbs'\<rparr>)\<rparr> \<and>
      bit_at xbs' 2 \<and> trace st' = trace st_ex"
    using sl1 by auto
  have p2: "(2105344 :: ptr) \<noteq> NULL" "(4096 :: size_t) \<le> g_max_alloc_size" "\<not> (4096 :: size_t) \<le> 2048"
    by (simp_all add: NULL_def g_max_alloc_size_def)
  have o2: "a_ta (las st_ex (align_down (push_bit g_lb_bits 1) 2105344)) \<noteq> 2"
    by (simp only: al s) (simp add: la3_def)
  have sh2: "Alloc_shape Large (las st_ex (align_down (push_bit g_lb_bits 1) 2105344))"
    using la3_shape by (simp only: al s)
  have in2: "inside Large (las st_ex (align_down (push_bit g_lb_bits 1) 2105344)) 2105344"
    by (simp only: al s) (simp add: inside_def la3_def MAX_bIT_val slot_size_val)
  have sl2: "slot_of Large la3 2105344 = 1" by (simp add: slot_of_def la3_def slot_size_val)
  from foreign_free_sets_xbs_only[of 2105344 4096 st_ex 2, OF p2(1,2)] p2(3) o2 sh2 in2
  obtain st' xbs' where
    "ThreadAlloc_free 2 2105344 4096 st_ex = Some st'"
    "st' = st_ex\<lparr>las := (las st_ex)(2097152 := la3\<lparr>a_xbs := xbs'\<rparr>)\<rparr>"
    "\<forall>j. bit_at xbs' j \<longleftrightarrow> bit_at (a_xbs la3) j \<or> j = slot_of Large la3 2105344"
    "trace st' = trace st_ex"
    unfolding al s by auto
  then have w2: "\<exists>st' xbs'. ThreadAlloc_free 2 2105344 4096 st_ex = Some st' \<and>
      st' = st_ex\<lparr>las := (las st_ex)(2097152 := la3\<lparr>a_xbs := xbs'\<rparr>)\<rparr> \<and>
      bit_at xbs' 1 \<and> trace st' = trace st_ex"
    using sl2 by auto
  from p1 o1 sh1 in1 w1 p2 o2 sh2 in2 w2 show ?thesis by blast
qed

text \<open>
  Claim C6 at the example store: freeing the only unit in use of the second huge block of
  shard 0 empties it; it is not the head, so it is erased from the list and released.
  Freeing the only unit in use of the head empties the head, which stays.
\<close>

theorem GlobalAlloc_free_spec_witness:
  "list_wf (links st_ex) (ga_hb st_ex (shard 0)) [134217728, 268435456] \<and>
   \<not> ga_mtx st_ex (shard 0) \<and>
   (270532608 :: ptr) = hb_p (hbs st_ex 268435456) + word_of_nat (0 * 2 ^ 21) \<and>
   (136314880 :: ptr) = hb_p (hbs st_ex 134217728) + word_of_nat (0 * 2 ^ 21) \<and>
   (\<exists>st'. GlobalAlloc_free 270532608 268435456 0 st_ex = Some st' \<and>
      hb_bits (hbs st' 268435456) = 0 \<and>
      trace st' = [VmDecommit 270532608 (2 ^ 21), Lock 0, Unlock 0, VmFree 268435456 (2 ^ 27)] \<and>
      list_wf (links st') (ga_hb st' 0) [134217728]) \<and>
   (\<exists>st'. GlobalAlloc_free 136314880 134217728 0 st_ex = Some st' \<and>
      hb_bits (hbs st' 134217728) = 0 \<and>
      trace st' = [VmDecommit 136314880 (2 ^ 21), Lock 0, Unlock 0] \<and>
      list_wf (links st') (ga_hb st' 0) [134217728, 268435456])"
proof -
  have sh: "shard 0 = 0" by (simp add: shard_def)
  have wf: "list_wf (links st_ex) (ga_hb st_ex (shard 0)) [134217728, 268435456]"
    by (simp add: list_wf_def st_ex_def sh NULL_def)
  have m: "\<not> ga_mtx st_ex (shard 0)" by (simp add: st_ex_def)
  have u1: "(270532608 :: ptr) = hb_p (hbs st_ex 268435456) + word_of_nat (0 * 2 ^ 21)"
    and u2: "(136314880 :: ptr) = hb_p (hbs st_ex 134217728) + word_of_nat (0 * 2 ^ 21)"
    by (simp_all add: st_ex_def)
  have b: "unset_bit 0 (hb_bits (hbs st_ex 268435456)) = 0" "unset_bit 0 (hb_bits (hbs st_ex 134217728)) = 0"
    "ga_hb st_ex 0 = 134217728" "trace st_ex = []"
    by (simp_all add: st_ex_def unset_bit_eq_and_not)
  have i: "(0 :: nat) < 63" by simp
  have m1: "(268435456 :: ptr) \<in> set [134217728, 268435456]"
    and m2: "(134217728 :: ptr) \<in> set [134217728, 268435456]" by simp_all
  from GlobalAlloc_free_spec[OF wf m1 m i u1]
  have w1: "\<exists>st'. GlobalAlloc_free 270532608 268435456 0 st_ex = Some st' \<and>
      hb_bits (hbs st' 268435456) = 0 \<and>
      trace st' = [VmDecommit 270532608 (2 ^ 21), Lock 0, Unlock 0, VmFree 268435456 (2 ^ 27)] \<and>
      list_wf (links st') (ga_hb st' 0) [134217728]"
    by (auto simp: sh b)
  from GlobalAlloc_free_spec[OF wf m2 m i u2]
  have w2: "\<exists>st'. GlobalAlloc_free 136314880 134217728 0 st_ex = Some st' \<and>
      hb_bits (hbs st' 134217728) = 0 \<and>
      trace st' = [VmDecommit 136314880 (2 ^ 21), Lock 0, Unlock 0] \<and>
      list_wf (links st') (ga_hb st' 0) [134217728, 268435456]"
    by (auto simp: sh b)
  from wf m u1 u2 w1 w2 show ?thesis by blast
qed

end
